theory Spec2Isabelle
  imports Main
begin

section \<open>Values, objects and the global registries\<close>

text \<open>
  JavaScript values. Objects live in a heap and are named by their address (\<open>Ref a\<close>);
  two references are the same object exactly when the addresses are equal, which is what
  \<^verbatim>\<open>===\<close> and the key comparison of \<^verbatim>\<open>Map\<close>/\<^verbatim>\<open>WeakMap\<close> decide.
  Numbers are restricted to the integers (no NaN, no negative zero, no fractions).

  Modelled from the spec: \<^verbatim>\<open>NO_ENTRY\<close> is declared in \<^verbatim>\<open>types.ts\<close>, which is not among
  the sources; the spec calls it "a reserved sentinel". It is the constructor \<open>NoEntry\<close>: a
  value different from every other value, truthy, and not an object.
\<close>

datatype val =
    Undefined
  | Null
  | Bool bool
  | Num int
  | Str string
  | NoEntry
  | Ref nat

text \<open>Truthiness, as \<^verbatim>\<open>if (x)\<close>, \<^verbatim>\<open>!x\<close>, \<^verbatim>\<open>x && y\<close> and \<^verbatim>\<open>x || y\<close> test it.\<close>

fun truthy :: "val \<Rightarrow> bool" where
  "truthy Undefined = False"
| "truthy Null = False"
| "truthy (Bool b) = b"
| "truthy (Num n) = (n \<noteq> 0)"
| "truthy (Str s) = (s \<noteq> [])"
| "truthy NoEntry = True"
| "truthy (Ref a) = True"

definition js_and :: "val \<Rightarrow> val \<Rightarrow> val" where
  "js_and a b = (if truthy a then b else a)"

definition js_or :: "val \<Rightarrow> val \<Rightarrow> val" where
  "js_or a b = (if truthy a then a else b)"

type_synonym entries = "(val \<times> val) list"

text \<open>
  A built-in \<^verbatim>\<open>Map\<close> is its list of entries in insertion order, with at most one entry
  per key: \<^verbatim>\<open>set\<close> overwrites the value of a key that is present, where it stands, and
  appends a new key; \<^verbatim>\<open>delete\<close> removes the entry and says whether there was one.
\<close>

definition Map_has :: "entries \<Rightarrow> val \<Rightarrow> bool" where
  "Map_has es k = (map_of es k \<noteq> None)"

definition Map_get :: "entries \<Rightarrow> val \<Rightarrow> val" where
  "Map_get es k = (case map_of es k of Some v \<Rightarrow> v | None \<Rightarrow> Undefined)"

primrec Map_set :: "entries \<Rightarrow> val \<Rightarrow> val \<Rightarrow> entries" where
  "Map_set [] k v = [(k, v)]"
| "Map_set (e # es) k v = (if fst e = k then (k, v) # es else e # Map_set es k v)"

definition Map_delete :: "entries \<Rightarrow> val \<Rightarrow> entries" where
  "Map_delete es k = filter (\<lambda>e. fst e \<noteq> k) es"

text \<open>A built-in \<^verbatim>\<open>Set\<close> is the list of its members in insertion order.\<close>

definition Set_has :: "val list \<Rightarrow> val \<Rightarrow> bool" where
  "Set_has xs x = (x \<in> set xs)"

definition Set_add :: "val list \<Rightarrow> val \<Rightarrow> val list" where
  "Set_add xs x = (if x \<in> set xs then xs else xs @ [x])"

definition Set_delete :: "val list \<Rightarrow> val \<Rightarrow> val list" where
  "Set_delete xs x = removeAll x xs"

text \<open>
  The objects of the heap. \<open>DimmerMap target delta\<close> is an instance of the class
  \<^verbatim>\<open>DimmerMap\<close> (\<^verbatim>\<open>DiagonMap\<close> in the later package): \<open>target\<close> is the address of the
  wrapped map and \<open>delta\<close> are the entries the instance holds as a \<^verbatim>\<open>Map\<close> itself (what
  \<^verbatim>\<open>super.has\<close>, \<^verbatim>\<open>super.set\<close> and \<^verbatim>\<open>super.entries\<close> work on), that is the open patch.
  The constructor also stores the view in the property \<^verbatim>\<open>PROXY\<close> of the target; no
  function of the sources reads that property, and the model leaves it out.

  Modelled from the spec: the tracking views of sets, sequences and records
  (\<^verbatim>\<open>DiagonSet\<close>, and \<^verbatim>\<open>Proxy\<close> with \<^verbatim>\<open>diagonArrayProxyHandler\<close> or
  \<^verbatim>\<open>objectProxyHandler\<close>) are not among the sources. Of them the model keeps the wrapped
  target, and for the set view its open patch, as for \<^verbatim>\<open>DimmerMap\<close>.
  A plain object is the list of its properties; property keys are kept as values.
\<close>

datatype obj =
    MapObj entries
  | SetObj "val list"
  | ArrayObj "val list"
  | PlainObj entries
  | DimmerMap nat entries
  | DimmerSet nat entries
  | ProxyObj nat

datatype error =
    TypeError
  | AlreadyTrackedError
  | NotModelled

text \<open>
  \<open>AlreadyTrackedError\<close> is \<^verbatim>\<open>new Error('trying to proxy a proxy')\<close>. \<open>TypeError\<close> is what
  the engine raises (a property of \<^verbatim>\<open>undefined\<close>, a primitive as the key of a
  \<^verbatim>\<open>WeakMap\<close> or as the target of a \<^verbatim>\<open>Proxy\<close>). \<open>NotModelled\<close> marks a call whose
  behaviour depends on code that is not among the sources.

  The module state of \<^verbatim>\<open>diagon.ts\<close>: the heap, \<^verbatim>\<open>objectToProxy\<close>,
  \<^verbatim>\<open>objectToCurrentPatch\<close>, \<^verbatim>\<open>patchToTarget\<close> (\<^verbatim>\<open>deltaToTarget\<close> in the earlier
  package) and the set \<^verbatim>\<open>modified\<close>, in insertion order.
\<close>

record state =
  heap :: "obj list"
  objectToProxy :: "nat \<rightharpoonup> val"
  objectToCurrentPatch :: "nat \<rightharpoonup> val"
  patchToTarget :: "nat \<rightharpoonup> val"
  modified :: "val list"

definition objAt :: "state \<Rightarrow> nat \<Rightarrow> obj option" where
  "objAt s a = (if a < length (heap s) then Some (heap s ! a) else None)"

definition alloc :: "state \<Rightarrow> obj \<Rightarrow> nat \<times> state" where
  "alloc s ob = (length (heap s), s\<lparr>heap := heap s @ [ob]\<rparr>)"

definition store :: "state \<Rightarrow> nat \<Rightarrow> obj \<Rightarrow> state" where
  "store s a ob = s\<lparr>heap := (heap s)[a := ob]\<rparr>"

text \<open>
  A \<^verbatim>\<open>WeakMap\<close>: \<^verbatim>\<open>get\<close> of a key that is not an object is \<^verbatim>\<open>undefined\<close>,
  \<^verbatim>\<open>set\<close> of such a key raises a TypeError.
\<close>

definition wm_get :: "(nat \<rightharpoonup> val) \<Rightarrow> val \<Rightarrow> val" where
  "wm_get m k = (case k of Ref a \<Rightarrow> (case m a of Some v \<Rightarrow> v | None \<Rightarrow> Undefined)
                 | _ \<Rightarrow> Undefined)"

definition wm_set :: "(nat \<rightharpoonup> val) \<Rightarrow> val \<Rightarrow> val \<Rightarrow> error + (nat \<rightharpoonup> val)" where
  "wm_set m k v = (case k of Ref a \<Rightarrow> Inr (m(a \<mapsto> v)) | _ \<Rightarrow> Inl TypeError)"

definition wm_delete :: "(nat \<rightharpoonup> val) \<Rightarrow> val \<Rightarrow> (nat \<rightharpoonup> val)" where
  "wm_delete m k = (case k of Ref a \<Rightarrow> m(a := None) | _ \<Rightarrow> m)"

section \<open>The registry of tracking views (diagon.ts)\<close>

text \<open>
  \<^verbatim>\<open>obj[ORIGINAL]\<close>: the getter of \<^verbatim>\<open>DimmerMap\<close> returns \<^verbatim>\<open>this.target\<close>; an object
  that is not a tracking view has no such property, and neither has a primitive.
  Modelled from the spec: the views of sets, sequences and records answer it the same way.
\<close>

definition ORIGINAL_of :: "state \<Rightarrow> val \<Rightarrow> val" where
  "ORIGINAL_of s v =
     (case v of
        Ref a \<Rightarrow>
          (case objAt s a of
             Some (DimmerMap t d) \<Rightarrow> Ref t
           | Some (DimmerSet t d) \<Rightarrow> Ref t
           | Some (ProxyObj t) \<Rightarrow> Ref t
           | _ \<Rightarrow> Undefined)
      | _ \<Rightarrow> Undefined)"

definition isProxy :: "state \<Rightarrow> val \<Rightarrow> error + bool" where
  "isProxy s ob =
     (if ob = Undefined \<or> ob = Null then Inl TypeError
      else Inr (truthy (ORIGINAL_of s ob)))"

definition asOriginal :: "state \<Rightarrow> val \<Rightarrow> val" where
  "asOriginal s ob = js_or (js_and ob (ORIGINAL_of s ob)) ob"

definition tryGetProxy :: "state \<Rightarrow> val \<Rightarrow> val" where
  "tryGetProxy s ob = wm_get (objectToProxy s) ob"

definition createRecordingProxy :: "state \<Rightarrow> val \<Rightarrow> error + (val \<times> state)" where
  "createRecordingProxy s target =
     (case isProxy s target of
        Inl e \<Rightarrow> Inl e
      | Inr True \<Rightarrow> Inl AlreadyTrackedError
      | Inr False \<Rightarrow>
          (case target of
             Ref t \<Rightarrow>
               (case objAt s t of
                  None \<Rightarrow> Inl TypeError
                | Some ob \<Rightarrow>
                    (let view = (case ob of
                                   MapObj es \<Rightarrow> DimmerMap t []
                                 | SetObj xs \<Rightarrow> DimmerSet t []
                                 | _ \<Rightarrow> ProxyObj t);
                         (p, s1) = alloc s view
                     in Inr (Ref p,
                             s1\<lparr>objectToProxy := (objectToProxy s1)(t \<mapsto> Ref p, p \<mapsto> Ref p)\<rparr>)))
           | _ \<Rightarrow> Inl TypeError))"

definition ensureProxy :: "state \<Rightarrow> val \<Rightarrow> error + (val \<times> state)" where
  "ensureProxy s ob =
     (let p = tryGetProxy s ob
      in if truthy p then Inr (p, s) else createRecordingProxy s ob)"

definition doNotTrack :: "state \<Rightarrow> val \<Rightarrow> error + (val \<times> state)" where
  "doNotTrack s ob =
     (if truthy ob then
        (case wm_set (objectToProxy s) ob ob of
           Inl e \<Rightarrow> Inl e
         | Inr m \<Rightarrow> Inr (ob, s\<lparr>objectToProxy := m\<rparr>))
      else Inr (ob, s))"

text \<open>
  \<^verbatim>\<open>typeof value !== 'object'\<close>: \<^verbatim>\<open>typeof\<close> is \<^verbatim>\<open>'object'\<close> for \<^verbatim>\<open>null\<close> and for
  every object, and for no other value.
\<close>

definition typeof_not_object :: "val \<Rightarrow> bool" where
  "typeof_not_object v = (case v of Null \<Rightarrow> False | Ref a \<Rightarrow> False | _ \<Rightarrow> True)"

definition proxify :: "state \<Rightarrow> val \<Rightarrow> error + (val \<times> state)" where
  "proxify s v =
     (let p = wm_get (objectToProxy s) v
      in if truthy p then Inr (p, s)
         else if typeof_not_object v \<or> \<not> truthy v then Inr (v, s)
         else createRecordingProxy s v)"

text \<open>
  \<^verbatim>\<open>createContext\<close> and \<^verbatim>\<open>clearContext\<close> only empty \<^verbatim>\<open>modified\<close>.
\<close>

definition createContext :: "state \<Rightarrow> state" where
  "createContext s = s\<lparr>modified := []\<rparr>"

definition clearContext :: "state \<Rightarrow> state" where
  "clearContext s = s\<lparr>modified := []\<rparr>"

section \<open>The tracking view of a map (class DimmerMap)\<close>

definition theDimmerMap :: "state \<Rightarrow> nat \<Rightarrow> (nat \<times> entries) option" where
  "theDimmerMap s a = (case objAt s a of Some (DimmerMap t d) \<Rightarrow> Some (t, d) | _ \<Rightarrow> None)"

definition theMap :: "state \<Rightarrow> nat \<Rightarrow> entries option" where
  "theMap s a = (case objAt s a of Some (MapObj es) \<Rightarrow> Some es | _ \<Rightarrow> None)"

text \<open>
  \<^verbatim>\<open>getKeyUsedByMap(map, key, proxyOfKey, originalKey)\<close>; \<^verbatim>\<open>undefined\<close> is the answer
  "no entry". The third and fourth argument default to \<^verbatim>\<open>tryGetProxy(key)\<close> and
  \<^verbatim>\<open>asOriginal(key)\<close>.
\<close>

definition getKeyUsedByMap :: "entries \<Rightarrow> val \<Rightarrow> val \<Rightarrow> val \<Rightarrow> val" where
  "getKeyUsedByMap m key proxyOfKey originalKey =
     (if truthy proxyOfKey \<and> Map_has m proxyOfKey then proxyOfKey
      else if Map_has m originalKey then originalKey
      else Undefined)"

definition getKeyUsedByMap_of :: "state \<Rightarrow> entries \<Rightarrow> val \<Rightarrow> val" where
  "getKeyUsedByMap_of s m key = getKeyUsedByMap m key (tryGetProxy s key) (asOriginal s key)"

text \<open>
  The methods take the address \<open>this\<close> of the view. A call on an object that is not a
  \<^verbatim>\<open>DimmerMap\<close> is a TypeError (there is no such method); the target of a view is a
  built-in map (\<^verbatim>\<open>createRecordingProxy\<close> refuses to wrap a view), any other target is
  not modelled.
\<close>

definition DimmerMap_has :: "state \<Rightarrow> nat \<Rightarrow> val \<Rightarrow> error + bool" where
  "DimmerMap_has s this key =
     (case theDimmerMap s this of
        None \<Rightarrow> Inl TypeError
      | Some (t, d) \<Rightarrow>
          (case theMap s t of
             None \<Rightarrow> Inl NotModelled
           | Some es \<Rightarrow>
               (let proxyOfKey = tryGetProxy s key
                in Inr ((truthy proxyOfKey \<and> Map_has es proxyOfKey)
                        \<or> Map_has es (asOriginal s key)))))"

definition DimmerMap_get :: "state \<Rightarrow> nat \<Rightarrow> val \<Rightarrow> error + (val \<times> state)" where
  "DimmerMap_get s this key =
     (case theDimmerMap s this of
        None \<Rightarrow> Inl TypeError
      | Some (t, d) \<Rightarrow>
          (case theMap s t of
             None \<Rightarrow> Inl NotModelled
           | Some es \<Rightarrow>
               (let proxyOfKey = tryGetProxy s key;
                    value = js_or (js_and proxyOfKey (Map_get es proxyOfKey))
                                  (Map_get es (asOriginal s key))
                in proxify s value)))"

definition DimmerMap_set :: "state \<Rightarrow> nat \<Rightarrow> val \<Rightarrow> val \<Rightarrow> error + (val \<times> state)" where
  "DimmerMap_set s this key value =
     (case theDimmerMap s this of
        None \<Rightarrow> Inl TypeError
      | Some (t, d) \<Rightarrow>
          (case theMap s t of
             None \<Rightarrow> Inl NotModelled
           | Some es \<Rightarrow>
               (let proxyOfKey = tryGetProxy s key;
                    originalKey = asOriginal s key;
                    currentKeyUsedByTarget = getKeyUsedByMap es key proxyOfKey originalKey;
                    hasChangeAlreadyBeenRecorded =
                      (Map_has d originalKey \<or> (truthy proxyOfKey \<and> Map_has d proxyOfKey));
                    s1 = (if \<not> hasChangeAlreadyBeenRecorded then
                            store (s\<lparr>modified := Set_add (modified s) (Ref t)\<rparr>) this
                              (DimmerMap t
                                 (if truthy currentKeyUsedByTarget
                                  then Map_set d currentKeyUsedByTarget
                                         (Map_get es currentKeyUsedByTarget)
                                  else Map_set d key NoEntry))
                          else s);
                    s2 = store s1 t
                           (MapObj (Map_set es (js_or currentKeyUsedByTarget key) value))
                in Inr (Ref this, s2))))"

definition DimmerMap_delete :: "state \<Rightarrow> nat \<Rightarrow> val \<Rightarrow> error + (val \<times> state)" where
  "DimmerMap_delete s this key =
     (case theDimmerMap s this of
        None \<Rightarrow> Inl TypeError
      | Some (t, d) \<Rightarrow>
          (case theMap s t of
             None \<Rightarrow> Inl NotModelled
           | Some es \<Rightarrow>
               (let proxyOfKey = tryGetProxy s key;
                    originalKey = asOriginal s key;
                    currentKeyUsedByTarget = getKeyUsedByMap es key proxyOfKey originalKey
                in if truthy currentKeyUsedByTarget then
                     (let hasChangeAlreadyBeenRecorded =
                            (Map_has d originalKey
                             \<or> (truthy proxyOfKey \<and> Map_has d proxyOfKey));
                          s1 = (if \<not> hasChangeAlreadyBeenRecorded then
                                  store (s\<lparr>modified := Set_add (modified s) (Ref t)\<rparr>) this
                                    (DimmerMap t
                                       (Map_set d currentKeyUsedByTarget
                                          (Map_get es currentKeyUsedByTarget)))
                                else s)
                      in Inr (Bool (Map_has es currentKeyUsedByTarget),
                              store s1 t (MapObj (Map_delete es currentKeyUsedByTarget))))
                   else Inr (Bool False, s))))"

text \<open>
  \<^verbatim>\<open>clear\<close>: the loop over the entries of the target only writes the view's own entries
  and \<^verbatim>\<open>modified\<close>, so it is a fold over the entries as they were.
\<close>

fun clear_loop :: "entries \<Rightarrow> entries \<times> bool \<Rightarrow> entries \<times> bool" where
  "clear_loop [] acc = acc"
| "clear_loop ((key, value) # rest) (d, touched) =
     (if \<not> Map_has d key then clear_loop rest (Map_set d key value, True)
      else clear_loop rest (d, touched))"

definition DimmerMap_clear :: "state \<Rightarrow> nat \<Rightarrow> error + (val \<times> state)" where
  "DimmerMap_clear s this =
     (case theDimmerMap s this of
        None \<Rightarrow> Inl TypeError
      | Some (t, d) \<Rightarrow>
          (case theMap s t of
             None \<Rightarrow> Inl NotModelled
           | Some es \<Rightarrow>
               (let (d', touched) = clear_loop es (d, False);
                    s1 = (if touched
                          then store (s\<lparr>modified := Set_add (modified s) (Ref t)\<rparr>) this
                                 (DimmerMap t d')
                          else s)
                in Inr (Undefined, store s1 t (MapObj [])))))"

text \<open>
  \<^verbatim>\<open>commitDelta\<close> (\<^verbatim>\<open>commitPatch\<close> in the later package): a new map with the view's own
  entries, registered in \<^verbatim>\<open>patchToTarget\<close>; the view's own entries are cleared.
  \<open>commit_view\<close> is its body, for a view at \<open>this\<close> known to wrap \<open>t\<close> with open patch
  \<open>d\<close>; \<open>emptied\<close> is the view without its entries.
\<close>

definition commit_view :: "state \<Rightarrow> nat \<Rightarrow> nat \<Rightarrow> entries \<Rightarrow> obj \<Rightarrow> val \<times> state" where
  "commit_view s this t d emptied =
     (let (p, s1) = alloc s (MapObj d);
          s2 = s1\<lparr>patchToTarget := (patchToTarget s1)(p \<mapsto> Ref t)\<rparr>
      in (Ref p, store s2 this emptied))"

definition DimmerMap_commitDelta :: "state \<Rightarrow> nat \<Rightarrow> error + (val \<times> state)" where
  "DimmerMap_commitDelta s this =
     (case theDimmerMap s this of
        None \<Rightarrow> Inl TypeError
      | Some (t, d) \<Rightarrow> Inr (commit_view s this t d (DimmerMap t [])))"

section \<open>Committing a recording scope (diagon.ts)\<close>

text \<open>
  \<^verbatim>\<open>commitPatches\<close>: one pass over \<^verbatim>\<open>modified\<close>, one \<^verbatim>\<open>push\<close> per member.
  Modelled from the spec: \<^verbatim>\<open>DiagonSet.commitPatch\<close> is not among the sources; it detaches
  the open patch of the set view as \<^verbatim>\<open>commitDelta\<close> does for a map view.
\<close>

fun commit_loop :: "state \<Rightarrow> val list \<Rightarrow> val list \<Rightarrow> val list \<times> state" where
  "commit_loop s [] changes = (changes, s)"
| "commit_loop s (target # rest) changes =
     (let targetProxy = wm_get (objectToProxy s) target;
          (patch, s1) =
            (case targetProxy of
               Ref p \<Rightarrow>
                 (case objAt s p of
                    Some (DimmerMap t d) \<Rightarrow> commit_view s p t d (DimmerMap t [])
                  | Some (DimmerSet t d) \<Rightarrow> commit_view s p t d (DimmerSet t [])
                  | _ \<Rightarrow> (wm_get (objectToCurrentPatch s) target,
                          s\<lparr>objectToCurrentPatch := wm_delete (objectToCurrentPatch s) target\<rparr>))
             | _ \<Rightarrow> (wm_get (objectToCurrentPatch s) target,
                     s\<lparr>objectToCurrentPatch := wm_delete (objectToCurrentPatch s) target\<rparr>))
      in commit_loop s1 rest (changes @ [patch]))"

definition commitPatches :: "state \<Rightarrow> val list \<times> state" where
  "commitPatches s = commit_loop s (modified s) []"

text \<open>
  \<^verbatim>\<open>recordPatches(mutator, state)\<close>: one recording scope. The mutator is a function of
  the view and the module state; an error of any step leaves through \<^verbatim>\<open>finally\<close>.
\<close>

definition recordPatches ::
  "(val \<Rightarrow> state \<Rightarrow> error + (val \<times> state)) \<Rightarrow> state \<Rightarrow> val \<Rightarrow> error + (val list \<times> state)" where
  "recordPatches mutator s st =
     (let s0 = createContext s
      in case (let p = tryGetProxy s0 st
               in if truthy p then Inr (p, s0) else createRecordingProxy s0 st) of
           Inl e \<Rightarrow> Inl e
         | Inr (stateProxy, s1) \<Rightarrow>
             (case mutator stateProxy s1 of
                Inl e \<Rightarrow> Inl e
              | Inr (r, s2) \<Rightarrow>
                  (let (changes, s3) = commitPatches s2
                   in Inr (changes, clearContext s3))))"

section \<open>Undo and reverse patches (history.ts)\<close>

text \<open>
  Modelled from the spec: \<^verbatim>\<open>createMapPatch\<close>, \<^verbatim>\<open>createSetPatch\<close>,
  \<^verbatim>\<open>createObjectPatch\<close> and \<^verbatim>\<open>createArrayPatch\<close> are imported from files that are not
  among the sources; \<^verbatim>\<open>createMapDelta\<close> of the earlier package is, and they are taken to do
  the same: a fresh, empty patch object registered in \<^verbatim>\<open>patchToTarget\<close>. The patch of a
  map, of a set and of a record is a \<^verbatim>\<open>Map\<close>, the patch of a sequence an array.
\<close>

definition createPatch :: "state \<Rightarrow> obj \<Rightarrow> val \<Rightarrow> val \<times> state" where
  "createPatch s fresh target =
     (let (p, s1) = alloc s fresh
      in (Ref p, s1\<lparr>patchToTarget := (patchToTarget s1)(p \<mapsto> target)\<rparr>))"

definition createMapDelta :: "state \<Rightarrow> val \<Rightarrow> val \<times> state" where
  "createMapDelta s target = createPatch s (MapObj []) target"

text \<open>One round of each loop of \<^verbatim>\<open>undoPatch\<close>, on the contents of the target.\<close>

definition undo_map_entry :: "state \<Rightarrow> entries \<Rightarrow> val \<times> val \<Rightarrow> entries" where
  "undo_map_entry s es kv =
     (let key = fst kv;
          value = snd kv;
          wasPreviouslyInMap = (value \<noteq> NoEntry);
          targetKey = getKeyUsedByMap_of s es key
      in if wasPreviouslyInMap then
           Map_set (if targetKey \<noteq> Undefined \<and> key \<noteq> targetKey
                    then Map_delete es targetKey else es) key value
         else Map_delete es key)"

definition undo_set_entry :: "val list \<Rightarrow> val \<times> val \<Rightarrow> val list" where
  "undo_set_entry xs kv =
     (if truthy (snd kv) then Set_add xs (fst kv) else Set_delete xs (fst kv))"

definition undo_object_entry :: "entries \<Rightarrow> val \<times> val \<Rightarrow> entries" where
  "undo_object_entry props kv = Map_set props (fst kv) (snd kv)"

text \<open>
  \<^verbatim>\<open>undoPatch(patch)\<close>. The branch is chosen by the kind of the target; the patch is read
  as the branch reads it. A target that is itself a tracking view, and a patch of another
  shape than its branch reads, are not modelled. With no target registered the last
  branch assigns to properties of \<^verbatim>\<open>undefined\<close>, a TypeError unless the patch is empty.
\<close>

definition undoPatch :: "state \<Rightarrow> val \<Rightarrow> error + state" where
  "undoPatch s patch =
     (case wm_get (patchToTarget s) patch of
        Ref t \<Rightarrow>
          (case (objAt s t, case patch of Ref p \<Rightarrow> objAt s p | _ \<Rightarrow> None) of
             (Some (MapObj es), Some (MapObj ps)) \<Rightarrow>
               Inr (store s t (MapObj (foldl (undo_map_entry s) es ps)))
           | (Some (SetObj xs), Some (MapObj ps)) \<Rightarrow>
               Inr (store s t (SetObj (foldl undo_set_entry xs ps)))
           | (Some (ArrayObj xs), Some (ArrayObj ys)) \<Rightarrow>
               Inr (store s t (ArrayObj ys))
           | (Some (PlainObj props), Some (MapObj ps)) \<Rightarrow>
               Inr (store s t (PlainObj (foldl undo_object_entry props ps)))
           | _ \<Rightarrow> Inl NotModelled)
      | _ \<Rightarrow>
          (case (case patch of Ref p \<Rightarrow> objAt s p | _ \<Rightarrow> None) of
             Some (MapObj []) \<Rightarrow> Inr s
           | Some (MapObj (e # ps)) \<Rightarrow> Inl TypeError
           | _ \<Rightarrow> Inl NotModelled))"

text \<open>The loops of \<^verbatim>\<open>createReversePatch\<close>, on the entries of the fresh patch.\<close>

definition reverse_map_key :: "entries \<Rightarrow> entries \<Rightarrow> val \<Rightarrow> entries" where
  "reverse_map_key es rp key =
     (if \<not> Map_has es key then Map_set rp key NoEntry
      else Map_set rp key (Map_get es key))"

definition reverse_set_key :: "val list \<Rightarrow> entries \<Rightarrow> val \<Rightarrow> entries" where
  "reverse_set_key xs rp key = Map_set rp key (Bool (Set_has xs key))"

definition reverse_object_key :: "entries \<Rightarrow> entries \<Rightarrow> val \<Rightarrow> entries" where
  "reverse_object_key props rp key = Map_set rp key (Map_get props key)"

definition createReversePatch :: "state \<Rightarrow> val \<Rightarrow> error + (val \<times> state)" where
  "createReversePatch s patch =
     (case wm_get (patchToTarget s) patch of
        Ref t \<Rightarrow>
          (case (objAt s t, case patch of Ref p \<Rightarrow> objAt s p | _ \<Rightarrow> None) of
             (Some (MapObj es), Some (MapObj ps)) \<Rightarrow>
               Inr (createPatch s (MapObj (foldl (reverse_map_key es) [] (map fst ps))) (Ref t))
           | (Some (SetObj xs), Some (MapObj ps)) \<Rightarrow>
               Inr (createPatch s (MapObj (foldl (reverse_set_key xs) [] (map fst ps))) (Ref t))
           | (Some (ArrayObj xs), _) \<Rightarrow>
               Inr (createPatch s (ArrayObj xs) (Ref t))
           | (Some (PlainObj props), Some (MapObj ps)) \<Rightarrow>
               Inr (createPatch s (MapObj (foldl (reverse_object_key props) [] (map fst ps)))
                      (Ref t))
           | _ \<Rightarrow> Inl NotModelled)
      | _ \<Rightarrow>
          (case (case patch of Ref p \<Rightarrow> objAt s p | _ \<Rightarrow> None) of
             Some (MapObj []) \<Rightarrow> Inr (createPatch s (MapObj []) Undefined)
           | Some (MapObj (e # ps)) \<Rightarrow> Inl TypeError
           | _ \<Rightarrow> Inl NotModelled))"

section \<open>Well-formed registries\<close>

text \<open>
  What \<^verbatim>\<open>createRecordingProxy\<close> and \<^verbatim>\<open>doNotTrack\<close> keep true of \<^verbatim>\<open>objectToProxy\<close>, for
  every object of the heap: the value registered for an object is registered for itself;
  a tracking view is registered for itself; and a value registered for another object is
  a tracking view.
\<close>

definition is_view :: "state \<Rightarrow> val \<Rightarrow> bool" where
  "is_view s v = truthy (ORIGINAL_of s v)"

definition registry_ok_at :: "state \<Rightarrow> nat \<Rightarrow> bool" where
  "registry_ok_at s a =
     (let p = tryGetProxy s (Ref a)
      in (truthy p \<longrightarrow> tryGetProxy s p = p)
         \<and> (is_view s (Ref a) \<longrightarrow> p = Ref a)
         \<and> (truthy p \<and> p \<noteq> Ref a \<longrightarrow> is_view s p))"

definition registry_ok :: "state \<Rightarrow> bool" where
  "registry_ok s = (\<forall>a < length (heap s). registry_ok_at s a)"

section \<open>Runs of the operations\<close>

text \<open>Sequencing of two steps; an error of the first step is the error of the run.\<close>

definition and_then ::
  "error + ('a \<times> state) \<Rightarrow> ('a \<Rightarrow> state \<Rightarrow> error + ('b \<times> state)) \<Rightarrow> error + ('b \<times> state)" where
  "and_then r f = (case r of Inl e \<Rightarrow> Inl e | Inr (x, s) \<Rightarrow> f x s)"

text \<open>A heap of untracked objects, as the module is after \<^verbatim>\<open>resetEnvironment\<close>.\<close>

definition raw_state :: "obj list \<Rightarrow> state" where
  "raw_state h = \<lparr>heap = h, objectToProxy = Map.empty, objectToCurrentPatch = Map.empty,
                    patchToTarget = Map.empty, modified = []\<rparr>"

text \<open>
  The body of a recording scope that calls \<^verbatim>\<open>set(k, v1); set(k, v2)\<close> on the view it is
  given.
\<close>

definition set_twice :: "val \<Rightarrow> val \<Rightarrow> val \<Rightarrow> val \<Rightarrow> state \<Rightarrow> error + (val \<times> state)" where
  "set_twice k v1 v2 view s =
     (case view of
        Ref m \<Rightarrow> and_then (DimmerMap_set s m k v1) (\<lambda>r s1. DimmerMap_set s1 m k v2)
      | _ \<Rightarrow> Inl TypeError)"

text \<open>
  A map with the one entry \<^verbatim>\<open>0 -> 'a'\<close> at address 0 and, at address 1, the view that
  \<^verbatim>\<open>createRecordingProxy\<close> makes of it.
\<close>

definition zero_key_state :: state where
  "zero_key_state =
     \<lparr>heap = [MapObj [(Num 0, Str ''a'')], DimmerMap 0 []],
      objectToProxy = [0 \<mapsto> Ref 1, 1 \<mapsto> Ref 1],
      objectToCurrentPatch = Map.empty, patchToTarget = Map.empty, modified = []\<rparr>"

text \<open>
  A map at address 0 with entries \<open>es\<close>, a container \<open>c\<close> at address 1 (an empty map, to be
  used as a key), and their views at addresses 2 and 3, as two calls of
  \<^verbatim>\<open>createRecordingProxy\<close> leave them.
\<close>

definition alias_state :: "entries \<Rightarrow> state" where
  "alias_state es =
     \<lparr>heap = [MapObj es, MapObj [], DimmerMap 0 [], DimmerMap 1 []],
      objectToProxy = [0 \<mapsto> Ref 2, 2 \<mapsto> Ref 2, 1 \<mapsto> Ref 3, 3 \<mapsto> Ref 3],
      objectToCurrentPatch = Map.empty, patchToTarget = Map.empty, modified = []\<rparr>"

text \<open>
  The state after a scope that called \<^verbatim>\<open>set('a', 2); set('a', 3)\<close> on the view of the map
  \<^verbatim>\<open>'a' -> 1\<close>: the committed patch is at address 2.
\<close>

definition committed_state :: state where
  "committed_state =
     \<lparr>heap = [MapObj [(Str ''a'', Num 3)], DimmerMap 0 [], MapObj [(Str ''a'', Num 1)]],
      objectToProxy = [0 \<mapsto> Ref 1, 1 \<mapsto> Ref 1],
      objectToCurrentPatch = Map.empty, patchToTarget = [2 \<mapsto> Ref 0], modified = []\<rparr>"

definition views_of_both :: "state \<Rightarrow> error + (val \<times> state)" where
  "views_of_both s =
     and_then (createRecordingProxy s (Ref 0)) (\<lambda>m s1. createRecordingProxy s1 (Ref 1))"

text \<open>
  Scope bodies on the view of the map: \<^verbatim>\<open>delete(c); set(trackingViewOf(c), 'v1')\<close>, and
  \<^verbatim>\<open>set(c, 'v1'); delete(c); set(trackingViewOf(c), 'v2')\<close>.
\<close>

definition delete_then_set :: "val \<Rightarrow> state \<Rightarrow> error + (val \<times> state)" where
  "delete_then_set view s =
     (case view of
        Ref m \<Rightarrow> and_then (DimmerMap_delete s m (Ref 1))
                   (\<lambda>r s1. DimmerMap_set s1 m (Ref 3) (Str ''v1''))
      | _ \<Rightarrow> Inl TypeError)"

definition set_delete_set :: "val \<Rightarrow> state \<Rightarrow> error + (val \<times> state)" where
  "set_delete_set view s =
     (case view of
        Ref m \<Rightarrow> and_then (DimmerMap_set s m (Ref 1) (Str ''v1''))
                   (\<lambda>r s1. and_then (DimmerMap_delete s1 m (Ref 1))
                              (\<lambda>r s2. DimmerMap_set s2 m (Ref 3) (Str ''v2'')))
      | _ \<Rightarrow> Inl TypeError)"

text \<open>
  The reverse-patch law's run: \<^verbatim>\<open>r = createReversePatch(p); undoPatch(p); undoPatch(r)\<close>.
\<close>

definition reverse_roundtrip :: "state \<Rightarrow> val \<Rightarrow> error + state" where
  "reverse_roundtrip s p =
     (case createReversePatch s p of
        Inl e \<Rightarrow> Inl e
      | Inr (r, s1) \<Rightarrow>
          (case undoPatch s1 p of Inl e \<Rightarrow> Inl e | Inr s2 \<Rightarrow> undoPatch s2 r))"

section \<open>Keys without an alias\<close>

text \<open>
  A key is unaliased when \<^verbatim>\<open>asOriginal\<close> and \<^verbatim>\<open>tryGetProxy\<close> lead to no other value:
  the key is no tracking view, and the registry has no view for it (or the key itself).
  \<open>reverse_value\<close> is the value \<^verbatim>\<open>createReversePatch\<close> records for a key of a map,
  and \<open>undo_fun\<close> what one round of \<^verbatim>\<open>undoPatch\<close> does to the map, read as a function
  from keys to values, when the key is unaliased.
\<close>

definition unaliased :: "state \<Rightarrow> val \<Rightarrow> bool" where
  "unaliased s k =
     (asOriginal s k = k \<and> (tryGetProxy s k = k \<or> \<not> truthy (tryGetProxy s k)))"

definition reverse_value :: "entries \<Rightarrow> val \<Rightarrow> val" where
  "reverse_value es k = (if Map_has es k then Map_get es k else NoEntry)"

definition undo_fun :: "(val \<rightharpoonup> val) \<Rightarrow> val \<times> val \<Rightarrow> (val \<rightharpoonup> val)" where
  "undo_fun f kv = (if snd kv \<noteq> NoEntry then f(fst kv \<mapsto> snd kv) else f(fst kv := None))"

section \<open>The rounds of a commit\<close>

text \<open>
  \<open>view_entry s target\<close> is what the test of \<^verbatim>\<open>commitPatches\<close> finds for a member of
  \<^verbatim>\<open>modified\<close>: when \<^verbatim>\<open>objectToProxy.get(target)\<close> is the view of a map or of a set, the
  address of that view, the target it wraps and the entries of its open patch. A member is
  \<open>viewed\<close> when there is such a view, and has its \<open>own_view\<close> when the view, if any, wraps
  the member itself.
\<close>

definition view_entry :: "state \<Rightarrow> val \<Rightarrow> (nat \<times> nat \<times> entries) option" where
  "view_entry s target =
     (case wm_get (objectToProxy s) target of
        Ref p \<Rightarrow>
          (case objAt s p of
             Some (DimmerMap t d) \<Rightarrow> Some (p, t, d)
           | Some (DimmerSet t d) \<Rightarrow> Some (p, t, d)
           | _ \<Rightarrow> None)
      | _ \<Rightarrow> None)"

definition viewed :: "state \<Rightarrow> val \<Rightarrow> bool" where
  "viewed s target = (view_entry s target \<noteq> None)"

definition own_view :: "state \<Rightarrow> val \<Rightarrow> bool" where
  "own_view s target =
     (case view_entry s target of None \<Rightarrow> True | Some (p, t, d) \<Rightarrow> target = Ref t)"

text \<open>
  One round of the loop of \<^verbatim>\<open>commitPatches\<close>, told by \<open>view_entry\<close>: the patch it pushes and
  the state it leaves. \<open>emptied_view\<close> is a view without the entries of its open patch.
\<close>

fun emptied_view :: "obj \<Rightarrow> obj" where
  "emptied_view (DimmerMap t d) = DimmerMap t []"
| "emptied_view (DimmerSet t d) = DimmerSet t []"
| "emptied_view ob = ob"

definition commit_step :: "state \<Rightarrow> val \<Rightarrow> val \<times> state" where
  "commit_step s target =
     (case view_entry s target of
        None \<Rightarrow> (wm_get (objectToCurrentPatch s) target,
                 s\<lparr>objectToCurrentPatch := wm_delete (objectToCurrentPatch s) target\<rparr>)
      | Some (p, t, d) \<Rightarrow>
          (Ref (length (heap s)),
           store (s\<lparr>heap := heap s @ [MapObj d],
                    patchToTarget := (patchToTarget s)(length (heap s) \<mapsto> Ref t)\<rparr>)
                 p (emptied_view (heap s ! p))))"

section \<open>Sequences of calls\<close>

text \<open>
  The calls a program can make of the functions above, and the state each leaves. A call
  that raises has written nothing before it raises, so it leaves the state as it was (a
  call outside the model is taken to do the same); \<^verbatim>\<open>recordPatches\<close> alone empties
  \<^verbatim>\<open>modified\<close> on its way out, in \<^verbatim>\<open>finally\<close>. The body of a recording scope is a sequence
  of calls; one that raises in the middle leaves what the calls before it and
  \<^verbatim>\<open>clearContext\<close> leave.
\<close>

datatype op =
    Create val
  | Ensure val
  | Proxify val
  | DoNotTrack val
  | Has nat val
  | Get nat val
  | SetKey nat val val
  | Delete nat val
  | Clear nat
  | CommitDelta nat
  | CreateContext
  | ClearContext
  | CommitPatches
  | UndoPatch val
  | CreateReversePatch val
  | CreateMapDelta val
  | Record "op list" val

definition state_after :: "state \<Rightarrow> error + ('a \<times> state) \<Rightarrow> state" where
  "state_after s r = (case r of Inl e \<Rightarrow> s | Inr (x, s') \<Rightarrow> s')"

fun run_op :: "state \<Rightarrow> op \<Rightarrow> state" where
  "run_op s (Create v) = state_after s (createRecordingProxy s v)"
| "run_op s (Ensure v) = state_after s (ensureProxy s v)"
| "run_op s (Proxify v) = state_after s (proxify s v)"
| "run_op s (DoNotTrack v) = state_after s (doNotTrack s v)"
| "run_op s (Has m k) = s"
| "run_op s (Get m k) = state_after s (DimmerMap_get s m k)"
| "run_op s (SetKey m k v) = state_after s (DimmerMap_set s m k v)"
| "run_op s (Delete m k) = state_after s (DimmerMap_delete s m k)"
| "run_op s (Clear m) = state_after s (DimmerMap_clear s m)"
| "run_op s (CommitDelta m) = state_after s (DimmerMap_commitDelta s m)"
| "run_op s CreateContext = createContext s"
| "run_op s ClearContext = clearContext s"
| "run_op s CommitPatches = snd (commitPatches s)"
| "run_op s (UndoPatch p) = (case undoPatch s p of Inl e \<Rightarrow> s | Inr s' \<Rightarrow> s')"
| "run_op s (CreateReversePatch p) = state_after s (createReversePatch s p)"
| "run_op s (CreateMapDelta t) = snd (createMapDelta s t)"
| "run_op s (Record body st) =
     state_after (clearContext s)
       (recordPatches (\<lambda>view s1. Inr (view, foldl run_op s1 body)) s st)"

definition run_ops :: "state \<Rightarrow> op list \<Rightarrow> state" where
  "run_ops s ops = foldl run_op s ops"

text \<open>
  \<open>creates a op\<close>: the call is \<^verbatim>\<open>createRecordingProxy\<close> on the object at \<open>a\<close> itself, or a
  recording scope whose body makes that call.
\<close>

fun creates :: "nat \<Rightarrow> op \<Rightarrow> bool" where
  "creates a (Create v) = (v = Ref a)"
| "creates a (Record body st) = list_ex (creates a) body"
| "creates a other = False"

text \<open>
  \<^verbatim>\<open>obj[ORIGINAL]\<close> read off the object. Two states have the \<open>same_views\<close> when the second
  has the registry of the first and every object answers \<^verbatim>\<open>[ORIGINAL]\<close> as before;
  \<open>keeps a s s'\<close> when the second still registers the object at \<open>a\<close> for itself and every
  view of it was one in the first.
\<close>

fun target_of :: "obj \<Rightarrow> val" where
  "target_of (DimmerMap t d) = Ref t"
| "target_of (DimmerSet t d) = Ref t"
| "target_of (ProxyObj t) = Ref t"
| "target_of ob = Undefined"

definition same_views :: "state \<Rightarrow> state \<Rightarrow> bool" where
  "same_views s s' =
     (objectToProxy s' = objectToProxy s \<and> length (heap s) \<le> length (heap s')
      \<and> (\<forall>b. ORIGINAL_of s' (Ref b) = ORIGINAL_of s (Ref b)))"

definition keeps :: "nat \<Rightarrow> state \<Rightarrow> state \<Rightarrow> bool" where
  "keeps a s s' =
     (a < length (heap s') \<and> tryGetProxy s' (Ref a) = Ref a
      \<and> (\<forall>b. ORIGINAL_of s' (Ref b) = Ref a \<longrightarrow> ORIGINAL_of s (Ref b) = Ref a))"

section \<open>Runs of a commit and of opting out\<close>

text \<open>
  \<^verbatim>\<open>view.set(k, v)\<close>, as the body of a recording scope.
\<close>

definition write_key :: "val \<Rightarrow> val \<Rightarrow> val \<Rightarrow> state \<Rightarrow> error + (val \<times> state)" where
  "write_key k v view s = (case view of Ref m \<Rightarrow> DimmerMap_set s m k v | _ \<Rightarrow> Inl TypeError)"

text \<open>
  A map at address 0 and its view at address 1, after \<^verbatim>\<open>createRecordingProxy(m)\<close> and then
  \<^verbatim>\<open>doNotTrack(m)\<close>: the registry maps the map to itself and the view to itself. In the
  second state \<^verbatim>\<open>view.set('a', 1)\<close> has been called.
\<close>

definition opted_out_state :: state where
  "opted_out_state =
     \<lparr>heap = [MapObj [], DimmerMap 0 []],
      objectToProxy = [0 \<mapsto> Ref 0, 1 \<mapsto> Ref 1],
      objectToCurrentPatch = Map.empty, patchToTarget = Map.empty, modified = []\<rparr>"

definition opted_out_written :: state where
  "opted_out_written =
     \<lparr>heap = [MapObj [(Str ''a'', Num 1)], DimmerMap 0 [(Str ''a'', NoEntry)]],
      objectToProxy = [0 \<mapsto> Ref 0, 1 \<mapsto> Ref 1],
      objectToCurrentPatch = Map.empty, patchToTarget = Map.empty, modified = [Ref 0]\<rparr>"

text \<open>
  Two maps (addresses 0 and 1) and a record (address 2) with their views (3, 4 and 5), all
  three written to in one scope: the map views hold their open patches, the open patch of
  the record is the map at address 6.
  Modelled from the spec: the handler of a record view is not among the sources; it keeps
  the open patch of the record in \<^verbatim>\<open>objectToCurrentPatch\<close> and \<^verbatim>\<open>patchToTarget\<close>, which is
  where \<^verbatim>\<open>commitPatches\<close> looks for it.
\<close>

definition three_modified :: state where
  "three_modified =
     \<lparr>heap = [MapObj [(Str ''a'', Num 1)], MapObj [(Str ''b'', Num 2)],
             PlainObj [(Str ''x'', Num 1)],
             DimmerMap 0 [(Str ''a'', NoEntry)], DimmerMap 1 [(Str ''b'', NoEntry)],
             ProxyObj 2, MapObj [(Str ''x'', Num 0)]],
      objectToProxy = [0 \<mapsto> Ref 3, 3 \<mapsto> Ref 3, 1 \<mapsto> Ref 4, 4 \<mapsto> Ref 4,
                       2 \<mapsto> Ref 5, 5 \<mapsto> Ref 5],
      objectToCurrentPatch = [2 \<mapsto> Ref 6], patchToTarget = [6 \<mapsto> Ref 2],
      modified = [Ref 1, Ref 2, Ref 0]\<rparr>"

text \<open>
  A map at address 0 that holds the map at address 1 under the key \<^verbatim>\<open>'k'\<close>, and calls that
  would make a view of the inner map: \<^verbatim>\<open>get('k')\<close> on the view of the outer map (which is
  at address 2 after \<^verbatim>\<open>ensureProxy\<close>), \<^verbatim>\<open>proxify\<close>, \<^verbatim>\<open>ensureProxy\<close>, and two recording
  scopes.
\<close>

definition opt_out_heap :: state where
  "opt_out_heap = raw_state [MapObj [(Str ''k'', Ref 1)], MapObj []]"

definition opt_out_ops :: "op list" where
  "opt_out_ops =
     [Ensure (Ref 0), Get 2 (Str ''k''), Proxify (Ref 1), Ensure (Ref 1),
      Record [SetKey 2 (Str ''j'') (Ref 1), Get 2 (Str ''j'')] (Ref 0),
      Record [] (Ref 1)]"

section \<open>Facts about the built-in map\<close>

lemma map_of_Map_set: "map_of (Map_set es k v) = (map_of es)(k \<mapsto> v)"
  by (induction es) auto

lemma Map_has_Map_set: "Map_has (Map_set es k v) k' = (k' = k \<or> Map_has es k')"
  by (simp add: Map_has_def map_of_Map_set)

lemma Map_get_Map_set: "Map_get (Map_set es k v) k' = (if k' = k then v else Map_get es k')"
  by (simp add: Map_get_def map_of_Map_set)

lemma keys_Map_set: "Map_has es k \<Longrightarrow> map fst (Map_set es k v) = map fst es"
  by (induction es) (auto simp: Map_has_def)

lemma map_of_Map_delete: "map_of (Map_delete es k) = (map_of es)(k := None)"
  by (induction es) (auto simp: Map_delete_def)

lemma Map_has_Map_delete: "Map_has (Map_delete es k) k' = (k' \<noteq> k \<and> Map_has es k')"
  by (simp add: Map_has_def map_of_Map_delete)

lemma Map_get_Map_delete:
  "Map_get (Map_delete es k) k' = (if k' = k then Undefined else Map_get es k')"
  by (simp add: Map_get_def map_of_Map_delete)

section \<open>The registry\<close>

lemma tryGetProxy_truthy_Ref: "truthy (tryGetProxy s v) \<Longrightarrow> \<exists>a. v = Ref a"
  by (cases v) (auto simp: tryGetProxy_def wm_get_def)

lemma fixed_point_Ref: "tryGetProxy s p = p \<Longrightarrow> truthy p \<Longrightarrow> \<exists>b. p = Ref b"
  using tryGetProxy_truthy_Ref by metis

lemma is_view_allocated: "is_view s (Ref a) \<Longrightarrow> a < length (heap s)"
  by (auto simp: is_view_def ORIGINAL_of_def objAt_def split: if_splits)

lemma is_view_Ref: "is_view s v \<Longrightarrow> \<exists>a. v = Ref a"
  by (cases v) (auto simp: is_view_def ORIGINAL_of_def)

lemma isProxy_Ref: "isProxy s (Ref a) = Inr (is_view s (Ref a))"
  by (simp add: isProxy_def is_view_def)

lemma ensureProxy_cases:
  "ensureProxy s v = (if truthy (tryGetProxy s v) then Inr (tryGetProxy s v, s)
                      else createRecordingProxy s v)"
  by (simp add: ensureProxy_def Let_def)

text \<open>
  Wrapping an object of the heap that is not a view succeeds: the view is the next
  object of the heap, registered for the target and for itself.
\<close>

lemma createRecordingProxy_fresh:
  assumes "a < length (heap s)" "\<not> is_view s (Ref a)"
  shows "\<exists>view. createRecordingProxy s (Ref a) =
           Inr (Ref (length (heap s)),
                s\<lparr>heap := heap s @ [view],
                  objectToProxy := (objectToProxy s)(a \<mapsto> Ref (length (heap s)),
                                                     length (heap s) \<mapsto> Ref (length (heap s)))\<rparr>)
         \<and> view \<in> {DimmerMap a [], DimmerSet a [], ProxyObj a}"
  using assms
  by (cases "heap s ! a")
     (auto simp: createRecordingProxy_def isProxy_Ref objAt_def alloc_def Let_def)

lemma ORIGINAL_of_extend:
  "b < length (heap s) \<Longrightarrow>
   ORIGINAL_of (s\<lparr>heap := heap s @ [view], objectToProxy := m\<rparr>) (Ref b) = ORIGINAL_of s (Ref b)"
  by (simp add: ORIGINAL_of_def objAt_def nth_append)

lemma is_view_new:
  assumes "view \<in> {DimmerMap a [], DimmerSet a [], ProxyObj a}"
  shows "is_view (s\<lparr>heap := heap s @ [view], objectToProxy := m\<rparr>) (Ref (length (heap s)))"
  using assms by (auto simp: is_view_def ORIGINAL_of_def objAt_def)

lemma registry_ok_raw: "registry_ok (raw_state (map MapObj ms))"
  by (auto simp: registry_ok_def registry_ok_at_def raw_state_def tryGetProxy_def wm_get_def
      is_view_def ORIGINAL_of_def objAt_def)

lemma registry_ok_createRecordingProxy:
  assumes ok: "registry_ok s" and res: "createRecordingProxy s v = Inr (p, s')"
  shows "registry_ok s'"
proof -
  from res obtain a where v: "v = Ref a"
    by (cases v)
       (auto simp: createRecordingProxy_def isProxy_def split: sum.splits bool.splits if_splits)
  from res v have alloc: "a < length (heap s)"
    by (auto simp: createRecordingProxy_def isProxy_def objAt_def
        split: sum.splits bool.splits if_splits option.splits)
  from res v have nv: "\<not> is_view s (Ref a)"
    by (auto simp: createRecordingProxy_def isProxy_Ref split: bool.splits)
  let ?n = "length (heap s)"
  from createRecordingProxy_fresh[OF alloc nv] res v obtain view where
    s': "s' = s\<lparr>heap := heap s @ [view],
               objectToProxy := (objectToProxy s)(a \<mapsto> Ref ?n, ?n \<mapsto> Ref ?n)\<rparr>"
    and view: "view \<in> {DimmerMap a [], DimmerSet a [], ProxyObj a}"
    by auto
  have newv: "is_view s' (Ref ?n)" unfolding s' by (rule is_view_new[OF view])
  have oldv: "\<And>b. b < ?n \<Longrightarrow> is_view s' (Ref b) = is_view s (Ref b)"
    unfolding s' is_view_def by (simp add: ORIGINAL_of_extend)
  have reg: "\<And>b. tryGetProxy s' (Ref b) =
       (if b = ?n \<or> b = a then Ref ?n else tryGetProxy s (Ref b))"
    unfolding s' by (simp add: tryGetProxy_def wm_get_def)
  show ?thesis
    unfolding registry_ok_def
  proof (intro allI impI)
    fix b assume "b < length (heap s')"
    then have b: "b < ?n \<or> b = ?n" unfolding s' by auto
    show "registry_ok_at s' b"
    proof (cases "b = ?n \<or> b = a")
      case True
      then show ?thesis
        using alloc nv newv oldv[of a]
        by (auto simp: registry_ok_at_def reg Let_def)
    next
      case False
      with b have bn: "b < ?n" "b \<noteq> a" by auto
      from ok bn have okb: "registry_ok_at s b" by (simp add: registry_ok_def)
      let ?q = "tryGetProxy s (Ref b)"
      have 1: "truthy ?q \<Longrightarrow> tryGetProxy s' ?q = ?q"
      proof -
        assume t: "truthy ?q"
        with okb have fp: "tryGetProxy s ?q = ?q" by (simp add: registry_ok_at_def Let_def)
        from fixed_point_Ref[OF fp t] obtain c where q: "?q = Ref c" by auto
        have "c \<noteq> a"
        proof
          assume "c = a"
          with okb t q bn have "is_view s (Ref a)"
            by (auto simp: registry_ok_at_def Let_def)
          with nv show False by simp
        qed
        then show ?thesis using fp q by (auto simp: reg)
      qed
      have 2: "is_view s' (Ref b) \<Longrightarrow> ?q = Ref b"
        using okb oldv[OF bn(1)] by (simp add: registry_ok_at_def Let_def)
      have 3: "truthy ?q \<Longrightarrow> ?q \<noteq> Ref b \<Longrightarrow> is_view s' ?q"
      proof -
        assume t: "truthy ?q" and ne: "?q \<noteq> Ref b"
        with okb have iv: "is_view s ?q" by (simp add: registry_ok_at_def Let_def)
        from is_view_Ref[OF iv] obtain c where q: "?q = Ref c" by auto
        with iv have "c < ?n" by (simp add: is_view_allocated)
        with iv q show ?thesis by (simp add: oldv)
      qed
      from bn have "tryGetProxy s' (Ref b) = ?q" by (simp add: reg)
      with 1 2 3 show ?thesis by (simp add: registry_ok_at_def Let_def)
    qed
  qed
qed

lemma registry_ok_doNotTrack:
  assumes ok: "registry_ok s" and res: "doNotTrack s v = Inr (r, s')"
  shows "registry_ok s'"
proof (cases "truthy v")
  case False
  with res ok show ?thesis by (simp add: doNotTrack_def)
next
  case True
  with res obtain x where v: "v = Ref x"
    and s': "s' = s\<lparr>objectToProxy := (objectToProxy s)(x \<mapsto> Ref x)\<rparr>"
    by (cases v) (auto simp: doNotTrack_def wm_set_def)
  have reg: "\<And>b. tryGetProxy s' (Ref b) = (if b = x then Ref x else tryGetProxy s (Ref b))"
    unfolding s' by (simp add: tryGetProxy_def wm_get_def)
  have iv: "is_view s' w = is_view s w" for w
    unfolding s' by (cases w) (simp_all add: is_view_def ORIGINAL_of_def objAt_def)
  show ?thesis
    unfolding registry_ok_def
  proof (intro allI impI)
    fix b assume "b < length (heap s')"
    then have bn: "b < length (heap s)" unfolding s' by simp
    with ok have okb: "registry_ok_at s b" by (simp add: registry_ok_def)
    show "registry_ok_at s' b"
    proof (cases "b = x")
      case True
      with okb show ?thesis by (auto simp: registry_ok_at_def reg iv Let_def)
    next
      case False
      let ?q = "tryGetProxy s (Ref b)"
      have 1: "truthy ?q \<Longrightarrow> tryGetProxy s' ?q = ?q"
      proof -
        assume t: "truthy ?q"
        with okb have fp: "tryGetProxy s ?q = ?q" by (simp add: registry_ok_at_def Let_def)
        from fixed_point_Ref[OF fp t] obtain c where q: "?q = Ref c" by auto
        with fp show ?thesis by (auto simp: reg)
      qed
      from False have "tryGetProxy s' (Ref b) = ?q" by (simp add: reg)
      with 1 okb show ?thesis by (simp add: registry_ok_at_def Let_def iv)
    qed
  qed
qed

text \<open>
  C5. For a container \<open>x\<close> of the heap, in a well-formed registry, \<^verbatim>\<open>ensureProxy(x)\<close>
  returns a view \<open>p\<close>, and in the state it leaves \<^verbatim>\<open>ensureProxy(p)\<close> and
  \<^verbatim>\<open>ensureProxy(x)\<close> return \<open>p\<close> again and change nothing: \<^verbatim>\<open>ensureProxy\<close> is
  idempotent. Looking up the tracking view of the view, \<^verbatim>\<open>tryGetProxy(p)\<close>, gives \<open>p\<close>
  itself. The registry stays well-formed.
\<close>

theorem ensureProxy_idempotent:
  assumes ok: "registry_ok s" and a: "a < length (heap s)"
  shows "case ensureProxy s (Ref a) of
           Inl e \<Rightarrow> False
         | Inr (p, s') \<Rightarrow>
             ensureProxy s' p = Inr (p, s') \<and> ensureProxy s' (Ref a) = Inr (p, s')
             \<and> tryGetProxy s' p = p \<and> registry_ok s'"
proof (cases "truthy (tryGetProxy s (Ref a))")
  case True
  with ok a have "tryGetProxy s (tryGetProxy s (Ref a)) = tryGetProxy s (Ref a)"
    by (simp add: registry_ok_def registry_ok_at_def Let_def)
  with True ok show ?thesis by (simp add: ensureProxy_cases)
next
  case False
  with ok a have nv: "\<not> is_view s (Ref a)"
    by (auto simp: registry_ok_def registry_ok_at_def Let_def)
  from createRecordingProxy_fresh[OF a nv] obtain view s' where
    cr: "createRecordingProxy s (Ref a) = Inr (Ref (length (heap s)), s')"
    and s': "s' = s\<lparr>heap := heap s @ [view],
               objectToProxy := (objectToProxy s)(a \<mapsto> Ref (length (heap s)),
                                                  length (heap s) \<mapsto> Ref (length (heap s)))\<rparr>"
    by auto
  have ok': "registry_ok s'" by (rule registry_ok_createRecordingProxy[OF ok cr])
  have "tryGetProxy s' (Ref (length (heap s))) = Ref (length (heap s))"
    "tryGetProxy s' (Ref a) = Ref (length (heap s))"
    unfolding s' by (simp_all add: tryGetProxy_def wm_get_def)
  with False cr ok' show ?thesis by (simp add: ensureProxy_cases)
qed

text \<open>The theorem at an untracked map: its view is created at address 1.\<close>

theorem ensureProxy_idempotent_witness:
  "registry_ok (raw_state [MapObj []]) \<and> (0::nat) < length (heap (raw_state [MapObj []]))
   \<and> (case ensureProxy (raw_state [MapObj []]) (Ref 0) of
         Inl e \<Rightarrow> False
       | Inr (p, s') \<Rightarrow>
           p = Ref 1 \<and> ensureProxy s' p = Inr (p, s') \<and> ensureProxy s' (Ref 0) = Inr (p, s')
           \<and> tryGetProxy s' p = p \<and> registry_ok s')"
proof -
  have ok: "registry_ok (raw_state [MapObj []])"
    using registry_ok_raw[of "[[]]"] by simp
  have a: "(0::nat) < length (heap (raw_state [MapObj []]))" by (simp add: raw_state_def)
  have p: "ensureProxy (raw_state [MapObj []]) (Ref 0) =
       Inr (Ref 1, \<lparr>heap = [MapObj [], DimmerMap 0 []],
                    objectToProxy = [0 \<mapsto> Ref 1, 1 \<mapsto> Ref 1],
                    objectToCurrentPatch = Map.empty, patchToTarget = Map.empty,
                    modified = []\<rparr>)"
    by (simp add: ensureProxy_cases tryGetProxy_def wm_get_def raw_state_def
        createRecordingProxy_def isProxy_def ORIGINAL_of_def objAt_def alloc_def)
  show ?thesis
    using ok a ensureProxy_idempotent[OF ok a] by (simp add: p)
qed

text \<open>
  C6. For a value \<open>v\<close> that is a tracking view, \<^verbatim>\<open>createRecordingProxy(v)\<close> ends with the
  error \<^verbatim>\<open>'trying to proxy a proxy'\<close>. No caller recovers from it: where the registry
  has no view for \<open>v\<close>, so that they reach the call, \<^verbatim>\<open>ensureProxy(v)\<close>,
  \<^verbatim>\<open>proxify(v)\<close> and \<^verbatim>\<open>recordPatches(mutator, v)\<close> end with the same error.
\<close>

theorem createRecordingProxy_of_view:
  assumes "isProxy s v = Inr True"
  shows "createRecordingProxy s v = Inl AlreadyTrackedError
         \<and> (\<not> truthy (tryGetProxy s v) \<longrightarrow>
              ensureProxy s v = Inl AlreadyTrackedError
              \<and> proxify s v = Inl AlreadyTrackedError
              \<and> recordPatches mutator s v = Inl AlreadyTrackedError)"
proof -
  have c: "createRecordingProxy s v = Inl AlreadyTrackedError"
    using assms by (simp add: createRecordingProxy_def)
  have r: "\<exists>a. v = Ref a"
    using assms by (cases v) (auto simp: isProxy_def ORIGINAL_of_def)
  have "ORIGINAL_of (createContext s) v = ORIGINAL_of s v"
    by (cases v) (simp_all add: ORIGINAL_of_def objAt_def createContext_def)
  then have "isProxy (createContext s) v = Inr True"
    using assms by (simp add: isProxy_def split: if_splits)
  then have c0: "createRecordingProxy (createContext s) v = Inl AlreadyTrackedError"
    by (simp add: createRecordingProxy_def)
  have t0: "tryGetProxy (createContext s) v = tryGetProxy s v"
    by (simp add: tryGetProxy_def createContext_def)
  show ?thesis using c r c0 t0
    by (auto simp: ensureProxy_def proxify_def tryGetProxy_def typeof_not_object_def
        recordPatches_def Let_def)
qed

text \<open>
  The theorem at a view that was constructed directly (\<^verbatim>\<open>new DimmerMap(target)\<close>), so
  that the registry does not know it.
\<close>

theorem createRecordingProxy_of_view_witness:
  "isProxy (raw_state [MapObj [], DimmerMap 0 []]) (Ref 1) = Inr True
   \<and> \<not> truthy (tryGetProxy (raw_state [MapObj [], DimmerMap 0 []]) (Ref 1))
   \<and> createRecordingProxy (raw_state [MapObj [], DimmerMap 0 []]) (Ref 1)
       = Inl AlreadyTrackedError
   \<and> ensureProxy (raw_state [MapObj [], DimmerMap 0 []]) (Ref 1) = Inl AlreadyTrackedError
   \<and> proxify (raw_state [MapObj [], DimmerMap 0 []]) (Ref 1) = Inl AlreadyTrackedError"
proof -
  have v: "isProxy (raw_state [MapObj [], DimmerMap 0 []]) (Ref 1) = Inr True"
    by (simp add: isProxy_def ORIGINAL_of_def objAt_def raw_state_def)
  have t: "\<not> truthy (tryGetProxy (raw_state [MapObj [], DimmerMap 0 []]) (Ref 1))"
    by (simp add: tryGetProxy_def wm_get_def raw_state_def)
  show ?thesis
    using v t createRecordingProxy_of_view[OF v, of "\<lambda>view s. Inr (Undefined, s)"] by simp
qed

section \<open>The view of a map\<close>

lemma theDimmerMap_SomeD:
  "theDimmerMap s m = Some (t, d) \<Longrightarrow> m < length (heap s) \<and> heap s ! m = DimmerMap t d"
  by (auto simp: theDimmerMap_def objAt_def split: if_splits option.splits obj.splits)

lemma theMap_SomeD:
  "theMap s t = Some es \<Longrightarrow> t < length (heap s) \<and> heap s ! t = MapObj es"
  by (auto simp: theMap_def objAt_def split: if_splits option.splits obj.splits)

lemma theMap_store_same:
  "t < length (heap s) \<Longrightarrow> theMap (store s t (MapObj es)) t = Some es"
  by (simp add: theMap_def objAt_def store_def)

lemma length_heap_store: "length (heap (store s a ob)) = length (heap s)"
  by (simp add: store_def)

lemma heap_modified_update: "heap (s\<lparr>modified := ms\<rparr>) = heap s"
  by simp

lemma proxify_not_object: "typeof_not_object v \<Longrightarrow> proxify s v = Inr (v, s)"
  by (cases v) (simp_all add: proxify_def typeof_not_object_def wm_get_def)

text \<open>
  What makes \<open>pc\<close> the tracking view of \<open>c\<close>, as \<^verbatim>\<open>createRecordingProxy(c)\<close> leaves it:
  the registry gives \<open>pc\<close> for \<open>c\<close> and for \<open>pc\<close>, and \<^verbatim>\<open>asOriginal\<close> gives \<open>c\<close> for both.
\<close>

lemma createRecordingProxy_alias:
  assumes "createRecordingProxy s0 (Ref c) = Inr (Ref pc, s)"
  shows "tryGetProxy s (Ref c) = Ref pc \<and> tryGetProxy s (Ref pc) = Ref pc
         \<and> asOriginal s (Ref pc) = Ref c \<and> asOriginal s (Ref c) = Ref c"
proof -
  from assms have nv: "\<not> is_view s0 (Ref c)" and al: "c < length (heap s0)"
    by (auto simp: createRecordingProxy_def isProxy_Ref objAt_def
        split: bool.splits option.splits if_splits)
  from createRecordingProxy_fresh[OF al nv] assms obtain view where
    pc: "pc = length (heap s0)"
    and s: "s = s0\<lparr>heap := heap s0 @ [view],
                    objectToProxy := (objectToProxy s0)(c \<mapsto> Ref (length (heap s0)),
                                         length (heap s0) \<mapsto> Ref (length (heap s0)))\<rparr>"
    and view: "view \<in> {DimmerMap c [], DimmerSet c [], ProxyObj c}"
    by auto
  have r: "tryGetProxy s (Ref c) = Ref pc" "tryGetProxy s (Ref pc) = Ref pc"
    by (simp_all add: s pc tryGetProxy_def wm_get_def)
  have "ORIGINAL_of s (Ref pc) = Ref c"
    using view by (auto simp: s pc ORIGINAL_of_def objAt_def)
  then have o1: "asOriginal s (Ref pc) = Ref c"
    by (simp add: asOriginal_def js_or_def js_and_def)
  have "ORIGINAL_of s (Ref c) = ORIGINAL_of s0 (Ref c)"
    unfolding s using al by (rule ORIGINAL_of_extend)
  with nv have o2: "asOriginal s (Ref c) = Ref c"
    by (simp add: asOriginal_def js_or_def js_and_def is_view_def)
  from r o1 o2 show ?thesis by simp
qed

text \<open>
  C2. Let the map behind the view \<open>m\<close> hold an entry keyed by the container \<open>c\<close>, under
  \<open>c\<close> itself or under its tracking view \<open>pc\<close> (in the sense above). The key used by the
  map is found by trying the tracking view of the key first and the raw key second: for
  both \<open>pc\<close> and \<open>c\<close> it is \<open>pc\<close> when the map holds \<open>pc\<close>, and \<open>c\<close> otherwise.
  \<^verbatim>\<open>m.get(pc)\<close> and \<^verbatim>\<open>m.get(c)\<close> both return (the view of) what is stored under \<open>pc\<close>, and
  when that is falsy what is stored under \<open>c\<close>. \<^verbatim>\<open>m.set(pc, v)\<close> and \<^verbatim>\<open>m.set(c, v)\<close> are the
  same computation: it returns the view and leaves the map with \<open>v\<close> under that one key,
  every other entry as it was, and the keys and their order as before: no second entry.
\<close>

theorem map_key_aliasing:
  assumes m: "theDimmerMap s m = Some (t, d)" and t: "theMap s t = Some es"
    and reg: "tryGetProxy s (Ref c) = Ref pc" "tryGetProxy s (Ref pc) = Ref pc"
    and orig: "asOriginal s (Ref pc) = Ref c" "asOriginal s (Ref c) = Ref c"
    and has: "Map_has es (Ref c) \<or> Map_has es (Ref pc)"
  shows "DimmerMap_get s m (Ref pc)
           = proxify s (js_or (Map_get es (Ref pc)) (Map_get es (Ref c)))
         \<and> DimmerMap_get s m (Ref c)
           = proxify s (js_or (Map_get es (Ref pc)) (Map_get es (Ref c)))
         \<and> getKeyUsedByMap_of s es (Ref pc) = (if Map_has es (Ref pc) then Ref pc else Ref c)
         \<and> getKeyUsedByMap_of s es (Ref c) = (if Map_has es (Ref pc) then Ref pc else Ref c)
         \<and> DimmerMap_set s m (Ref c) v = DimmerMap_set s m (Ref pc) v
         \<and> (case DimmerMap_set s m (Ref pc) v of
               Inl e \<Rightarrow> False
             | Inr (r, s') \<Rightarrow>
                 r = Ref m
                 \<and> (case theMap s' t of
                       None \<Rightarrow> False
                     | Some es' \<Rightarrow>
                         es' = Map_set es (if Map_has es (Ref pc) then Ref pc else Ref c) v
                         \<and> map fst es' = map fst es
                         \<and> Map_get es' (if Map_has es (Ref pc) then Ref pc else Ref c) = v
                         \<and> (\<forall>k. k \<noteq> (if Map_has es (Ref pc) then Ref pc else Ref c)
                                \<longrightarrow> Map_get es' k = Map_get es k)))"
proof -
  let ?k = "if Map_has es (Ref pc) then Ref pc else Ref c"
  let ?stored = "js_or (Map_get es (Ref pc)) (Map_get es (Ref c))"
  have g1: "DimmerMap_get s m (Ref pc) = proxify s ?stored"
    by (simp add: DimmerMap_get_def m t reg orig js_and_def)
  have g2: "DimmerMap_get s m (Ref c) = proxify s ?stored"
    by (simp add: DimmerMap_get_def m t reg orig js_and_def)
  have k1: "getKeyUsedByMap_of s es (Ref pc) = ?k"
    using has by (auto simp: getKeyUsedByMap_of_def getKeyUsedByMap_def reg orig)
  have k2: "getKeyUsedByMap_of s es (Ref c) = ?k"
    using has by (auto simp: getKeyUsedByMap_of_def getKeyUsedByMap_def reg orig)
  have hask: "Map_has es ?k" using has by auto
  have tk: "truthy ?k" by simp
  from theMap_SomeD[OF t] have tl: "t < length (heap s)" by simp
  have cur: "getKeyUsedByMap es (Ref pc) (Ref pc) (Ref c) = ?k"
    "getKeyUsedByMap es (Ref c) (Ref pc) (Ref c) = ?k"
    using k1 k2 by (simp_all add: getKeyUsedByMap_of_def reg orig)
  have same: "DimmerMap_set s m (Ref c) v = DimmerMap_set s m (Ref pc) v"
    using tk by (simp add: DimmerMap_set_def m t reg orig cur js_or_def Let_def)
  have set: "case DimmerMap_set s m (Ref pc) v of
               Inl e \<Rightarrow> False
             | Inr (r, s') \<Rightarrow> r = Ref m \<and> theMap s' t = Some (Map_set es ?k v)"
    using tl tk
    by (simp add: DimmerMap_set_def m t reg orig cur js_or_def Let_def
        theMap_store_same length_heap_store)
  have keys: "map fst (Map_set es ?k v) = map fst es" by (rule keys_Map_set[OF hask])
  have val: "Map_get (Map_set es ?k v) ?k = v" by (simp add: Map_get_Map_set)
  have oth: "\<forall>k. k \<noteq> ?k \<longrightarrow> Map_get (Map_set es ?k v) k = Map_get es k"
    by (simp add: Map_get_Map_set)
  have set': "case DimmerMap_set s m (Ref pc) v of
               Inl e \<Rightarrow> False
             | Inr (r, s') \<Rightarrow>
                 r = Ref m
                 \<and> (case theMap s' t of
                       None \<Rightarrow> False
                     | Some es' \<Rightarrow>
                         es' = Map_set es ?k v
                         \<and> map fst es' = map fst es
                         \<and> Map_get es' ?k = v
                         \<and> (\<forall>k. k \<noteq> ?k \<longrightarrow> Map_get es' k = Map_get es k))"
  proof (cases "DimmerMap_set s m (Ref pc) v")
    case (Inl e)
    with set show ?thesis by simp
  next
    case (Inr rs)
    obtain r s' where rs: "rs = (r, s')" by (cases rs)
    from set Inr rs have "r = Ref m" "theMap s' t = Some (Map_set es ?k v)" by simp_all
    with Inr rs keys val oth show ?thesis by simp
  qed
  from g1 g2 k1 k2 same set' show ?thesis by (intro conjI)
qed

text \<open>
  The theorem at two maps whose first entry is an unrelated key, for the container at
  address 1 whose view is at address 3: a map holding an entry under the view and one
  under the container (the view wins), and a map holding one under the container only.
\<close>

theorem map_key_aliasing_witness:
  "DimmerMap_get (alias_state [(Str ''z'', Num 9), (Ref 1, Str ''raw''), (Ref 3, Str ''view'')])
       2 (Ref 3)
     = Inr (Str ''view'',
            alias_state [(Str ''z'', Num 9), (Ref 1, Str ''raw''), (Ref 3, Str ''view'')])
   \<and> DimmerMap_get (alias_state [(Str ''z'', Num 9), (Ref 1, Str ''raw''), (Ref 3, Str ''view'')])
       2 (Ref 1)
     = Inr (Str ''view'',
            alias_state [(Str ''z'', Num 9), (Ref 1, Str ''raw''), (Ref 3, Str ''view'')])
   \<and> getKeyUsedByMap_of
        (alias_state [(Str ''z'', Num 9), (Ref 1, Str ''raw''), (Ref 3, Str ''view'')])
        [(Str ''z'', Num 9), (Ref 1, Str ''raw''), (Ref 3, Str ''view'')] (Ref 1) = Ref 3
   \<and> (case DimmerMap_set
              (alias_state [(Str ''z'', Num 9), (Ref 1, Str ''raw''), (Ref 3, Str ''view'')])
              2 (Ref 3) (Str ''v'') of
         Inl e \<Rightarrow> False
       | Inr (r, s') \<Rightarrow>
           r = Ref 2
           \<and> theMap s' 0 = Some [(Str ''z'', Num 9), (Ref 1, Str ''raw''), (Ref 3, Str ''v'')])
   \<and> DimmerMap_get (alias_state [(Str ''z'', Num 9), (Ref 1, Str ''v0'')]) 2 (Ref 3)
     = Inr (Str ''v0'', alias_state [(Str ''z'', Num 9), (Ref 1, Str ''v0'')])
   \<and> DimmerMap_get (alias_state [(Str ''z'', Num 9), (Ref 1, Str ''v0'')]) 2 (Ref 1)
     = Inr (Str ''v0'', alias_state [(Str ''z'', Num 9), (Ref 1, Str ''v0'')])
   \<and> getKeyUsedByMap_of (alias_state [(Str ''z'', Num 9), (Ref 1, Str ''v0'')])
        [(Str ''z'', Num 9), (Ref 1, Str ''v0'')] (Ref 3) = Ref 1
   \<and> (case DimmerMap_set (alias_state [(Str ''z'', Num 9), (Ref 1, Str ''v0'')])
              2 (Ref 3) (Str ''v'') of
         Inl e \<Rightarrow> False
       | Inr (r, s') \<Rightarrow>
           r = Ref 2 \<and> theMap s' 0 = Some [(Str ''z'', Num 9), (Ref 1, Str ''v'')])"
proof -
  let ?A = "[(Str ''z'', Num 9), (Ref 1, Str ''raw''), (Ref 3, Str ''view'')]"
  let ?B = "[(Str ''z'', Num 9), (Ref 1, Str ''v0'')]"
  have m: "theDimmerMap (alias_state es) 2 = Some (0, [])" for es
    by (simp add: alias_state_def theDimmerMap_def objAt_def)
  have t: "theMap (alias_state es) 0 = Some es" for es
    by (simp add: alias_state_def theMap_def objAt_def)
  have reg: "tryGetProxy (alias_state es) (Ref 1) = Ref 3"
    "tryGetProxy (alias_state es) (Ref 3) = Ref 3" for es
    by (simp_all add: alias_state_def tryGetProxy_def wm_get_def)
  have orig: "asOriginal (alias_state es) (Ref 3) = Ref 1"
    "asOriginal (alias_state es) (Ref 1) = Ref 1" for es
    by (simp_all add: alias_state_def asOriginal_def ORIGINAL_of_def objAt_def js_or_def js_and_def)
  have hasA: "Map_has ?A (Ref 1) \<or> Map_has ?A (Ref 3)" by (simp add: Map_has_def)
  have hasB: "Map_has ?B (Ref 1) \<or> Map_has ?B (Ref 3)" by (simp add: Map_has_def)
  have px: "proxify (alias_state es) (Str x) = Inr (Str x, alias_state es)" for es x
    by (simp add: proxify_not_object typeof_not_object_def)
  note A = map_key_aliasing[OF m t reg orig hasA, of "Str ''v''"]
  note B = map_key_aliasing[OF m t reg orig hasB, of "Str ''v''"]
  have a1: "DimmerMap_get (alias_state ?A) 2 (Ref 3) = Inr (Str ''view'', alias_state ?A)"
    using A[THEN conjunct1] by (simp add: Map_get_def js_or_def px del: One_nat_def)
  have a2: "DimmerMap_get (alias_state ?A) 2 (Ref 1) = Inr (Str ''view'', alias_state ?A)"
    using A[THEN conjunct2, THEN conjunct1]
    by (simp add: Map_get_def js_or_def px del: One_nat_def)
  have a3: "getKeyUsedByMap_of (alias_state ?A) ?A (Ref 1) = Ref 3"
    using A[THEN conjunct2, THEN conjunct2, THEN conjunct2, THEN conjunct1]
    by (simp add: Map_has_def del: One_nat_def)
  have a4: "case DimmerMap_set (alias_state ?A) 2 (Ref 3) (Str ''v'') of
         Inl e \<Rightarrow> False
       | Inr (r, s') \<Rightarrow>
           r = Ref 2
           \<and> theMap s' 0 = Some [(Str ''z'', Num 9), (Ref 1, Str ''raw''), (Ref 3, Str ''v'')]"
    using A[THEN conjunct2, THEN conjunct2, THEN conjunct2, THEN conjunct2, THEN conjunct2]
    by (auto simp: Map_has_def simp del: One_nat_def split: sum.splits option.splits)
  have b1: "DimmerMap_get (alias_state ?B) 2 (Ref 3) = Inr (Str ''v0'', alias_state ?B)"
    using B[THEN conjunct1] by (simp add: Map_get_def js_or_def px del: One_nat_def)
  have b2: "DimmerMap_get (alias_state ?B) 2 (Ref 1) = Inr (Str ''v0'', alias_state ?B)"
    using B[THEN conjunct2, THEN conjunct1]
    by (simp add: Map_get_def js_or_def px del: One_nat_def)
  have b3: "getKeyUsedByMap_of (alias_state ?B) ?B (Ref 3) = Ref 1"
    using B[THEN conjunct2, THEN conjunct2, THEN conjunct1]
    by (simp add: Map_has_def del: One_nat_def)
  have b4: "case DimmerMap_set (alias_state ?B) 2 (Ref 3) (Str ''v'') of
         Inl e \<Rightarrow> False
       | Inr (r, s') \<Rightarrow>
           r = Ref 2 \<and> theMap s' 0 = Some [(Str ''z'', Num 9), (Ref 1, Str ''v'')]"
    using B[THEN conjunct2, THEN conjunct2, THEN conjunct2, THEN conjunct2, THEN conjunct2]
    by (auto simp: Map_has_def simp del: One_nat_def split: sum.splits option.splits)
  from a1 a2 a3 a4 b1 b2 b3 b4 show ?thesis by (intro conjI)
qed

text \<open>What \<^verbatim>\<open>proxify\<close> leaves: the state as it was, or one new view.\<close>

lemma proxify_effect:
  assumes "proxify s v = Inr (r, s')"
  shows "(s' = s \<and> (r = v \<or> r = tryGetProxy s v))
         \<or> (\<exists>x view. v = Ref x \<and> x < length (heap s) \<and> \<not> truthy (tryGetProxy s v)
               \<and> r = Ref (length (heap s))
               \<and> s' = s\<lparr>heap := heap s @ [view],
                         objectToProxy := (objectToProxy s)(x \<mapsto> Ref (length (heap s)),
                                              length (heap s) \<mapsto> Ref (length (heap s)))\<rparr>)"
proof (cases "truthy (tryGetProxy s v)")
  case True
  with assms show ?thesis by (auto simp: proxify_def tryGetProxy_def Let_def)
next
  case nt: False
  show ?thesis
  proof (cases "typeof_not_object v \<or> \<not> truthy v")
    case True
    with assms nt show ?thesis by (auto simp: proxify_def tryGetProxy_def Let_def)
  next
    case False
    then obtain x where v: "v = Ref x" by (cases v) (auto simp: typeof_not_object_def)
    from assms nt False have cr: "createRecordingProxy s (Ref x) = Inr (r, s')"
      by (simp add: proxify_def tryGetProxy_def Let_def v)
    then have nv: "\<not> is_view s (Ref x)" and al: "x < length (heap s)"
      by (auto simp: createRecordingProxy_def isProxy_Ref objAt_def
          split: bool.splits option.splits if_splits)
    from createRecordingProxy_fresh[OF al nv] cr nt v al show ?thesis by auto
  qed
qed

lemma proxify_again:
  assumes "proxify s v = Inr (r, s')"
  shows "proxify s' v = Inr (r, s')"
  using proxify_effect[OF assms] assms
  by (auto simp: proxify_def tryGetProxy_def wm_get_def Let_def)

text \<open>
  The two lookups of C2 in program order: when \<^verbatim>\<open>m.get(pc)\<close> has returned \<open>r\<close>, possibly
  creating the view of the stored value on the way, \<^verbatim>\<open>m.get(c)\<close> returns \<open>r\<close> again and
  changes nothing.
\<close>

theorem get_alias_in_sequence:
  assumes m: "theDimmerMap s m = Some (t, d)" and t: "theMap s t = Some es"
    and reg: "tryGetProxy s (Ref c) = Ref pc" "tryGetProxy s (Ref pc) = Ref pc"
    and orig: "asOriginal s (Ref pc) = Ref c" "asOriginal s (Ref c) = Ref c"
    and c: "c < length (heap s)"
    and run: "DimmerMap_get s m (Ref pc) = Inr (r, s')"
  shows "DimmerMap_get s' m (Ref c) = Inr (r, s')"
proof -
  let ?stored = "js_or (js_and (Ref pc) (Map_get es (Ref pc))) (Map_get es (Ref c))"
  from run have px: "proxify s ?stored = Inr (r, s')"
    by (simp add: DimmerMap_get_def m t reg orig Let_def)
  from theDimmerMap_SomeD[OF m] have ml: "m < length (heap s)" by simp
  from theMap_SomeD[OF t] have tl: "t < length (heap s)" by simp
  have pcl: "pc < length (heap s)"
  proof (cases "pc = c")
    case True
    with c show ?thesis by simp
  next
    case False
    with orig(1) have "ORIGINAL_of s (Ref pc) = Ref c"
      by (auto simp: asOriginal_def js_or_def js_and_def split: if_splits)
    then have "is_view s (Ref pc)" by (simp add: is_view_def)
    then show ?thesis by (rule is_view_allocated)
  qed
  from proxify_effect[OF px]
  have same: "theDimmerMap s' m = Some (t, d) \<and> theMap s' t = Some es
              \<and> tryGetProxy s' (Ref c) = Ref pc \<and> tryGetProxy s' (Ref pc) = Ref pc
              \<and> asOriginal s' (Ref pc) = Ref c \<and> asOriginal s' (Ref c) = Ref c"
  proof
    assume "s' = s \<and> (r = ?stored \<or> r = tryGetProxy s ?stored)"
    with m t reg orig show ?thesis by simp
  next
    assume "\<exists>x view. ?stored = Ref x \<and> x < length (heap s) \<and> \<not> truthy (tryGetProxy s ?stored)
               \<and> r = Ref (length (heap s))
               \<and> s' = s\<lparr>heap := heap s @ [view],
                         objectToProxy := (objectToProxy s)(x \<mapsto> Ref (length (heap s)),
                                              length (heap s) \<mapsto> Ref (length (heap s)))\<rparr>"
    then obtain x view where x: "?stored = Ref x" and nt: "\<not> truthy (tryGetProxy s (Ref x))"
      and s': "s' = s\<lparr>heap := heap s @ [view],
                         objectToProxy := (objectToProxy s)(x \<mapsto> Ref (length (heap s)),
                                              length (heap s) \<mapsto> Ref (length (heap s)))\<rparr>"
      by auto
    from nt reg have xc: "x \<noteq> c" "x \<noteq> pc" by auto
    have o: "ORIGINAL_of s' (Ref a) = ORIGINAL_of s (Ref a)" if "a < length (heap s)" for a
      unfolding s' using that by (rule ORIGINAL_of_extend)
    have "theDimmerMap s' m = Some (t, d)"
      using m ml by (simp add: s' theDimmerMap_def objAt_def nth_append)
    moreover have "theMap s' t = Some es"
      using t tl by (simp add: s' theMap_def objAt_def nth_append)
    moreover have "tryGetProxy s' (Ref c) = Ref pc" "tryGetProxy s' (Ref pc) = Ref pc"
      using reg xc c pcl by (simp_all add: s' tryGetProxy_def wm_get_def)
    moreover have "asOriginal s' (Ref pc) = Ref c" "asOriginal s' (Ref c) = Ref c"
      using orig o[OF c] o[OF pcl] by (simp_all add: asOriginal_def)
    ultimately show ?thesis by simp
  qed
  then have "DimmerMap_get s' m (Ref c) = proxify s' ?stored"
    by (simp add: DimmerMap_get_def Let_def)
  with proxify_again[OF px] show ?thesis by simp
qed



section \<open>Runs at a falsy key and at an aliased key\<close>

lemmas run_defs = and_then_def raw_state_def createRecordingProxy_def isProxy_def ORIGINAL_of_def
  objAt_def alloc_def store_def recordPatches_def createContext_def clearContext_def tryGetProxy_def
  wm_get_def wm_set_def wm_delete_def DimmerMap_delete_def DimmerMap_set_def DimmerMap_get_def
  theDimmerMap_def theMap_def asOriginal_def js_or_def js_and_def getKeyUsedByMap_def
  getKeyUsedByMap_of_def Map_has_def Map_get_def Map_delete_def Set_add_def commitPatches_def
  commit_view_def undoPatch_def createReversePatch_def createPatch_def undo_map_entry_def
  reverse_map_key_def proxify_def typeof_not_object_def Let_def

text \<open>The states of the runs are what \<^verbatim>\<open>createRecordingProxy\<close> leaves.\<close>

lemma zero_key_state_reached:
  "createRecordingProxy (raw_state [MapObj [(Num 0, Str ''a'')]]) (Ref 0)
     = Inr (Ref 1, zero_key_state)"
  by (simp add: run_defs zero_key_state_def)

lemma alias_state_reached:
  "views_of_both (raw_state [MapObj es, MapObj []]) = Inr (Ref 3, alias_state es)"
  by (simp add: run_defs views_of_both_def alias_state_def numeral_2_eq_2 numeral_3_eq_3)

text \<open>
  C1, at the key 0. The map holds \<^verbatim>\<open>0 -> 'a'\<close> and \<^verbatim>\<open>get(0)\<close> is \<^verbatim>\<open>'a'\<close>. The scope
  calls \<^verbatim>\<open>set(0, 'b'); set(0, 'c')\<close>. The committed patch maps 0 to \<^verbatim>\<open>NO_ENTRY\<close>, not
  to \<^verbatim>\<open>'a'\<close>: \<^verbatim>\<open>set\<close> tests the resolved key with \<^verbatim>\<open>if (currentKeyUsedByTarget)\<close>, and 0
  is falsy. Afterwards \<^verbatim>\<open>get(0)\<close> is \<^verbatim>\<open>'c'\<close>, and \<^verbatim>\<open>undoPatch\<close> of the patch leaves the
  map empty instead of restoring \<^verbatim>\<open>0 -> 'a'\<close>.
\<close>

theorem first_write_zero_key:
  "DimmerMap_get zero_key_state 1 (Num 0) = Inr (Str ''a'', zero_key_state)
   \<and> (case recordPatches (set_twice (Num 0) (Str ''b'') (Str ''c'')) zero_key_state (Ref 0) of
         Inl e \<Rightarrow> False
       | Inr (changes, s') \<Rightarrow>
           changes = [Ref 2] \<and> theMap s' 2 = Some [(Num 0, NoEntry)]
           \<and> DimmerMap_get s' 1 (Num 0) = Inr (Str ''c'', s')
           \<and> (case undoPatch s' (Ref 2) of
                 Inl e \<Rightarrow> False
               | Inr s2 \<Rightarrow> theMap s2 0 = Some []))"
  by (simp add: run_defs zero_key_state_def set_twice_def)

text \<open>
  C7, at the key 0. The map holds \<^verbatim>\<open>0 -> 'a'\<close>, the key resolves to the stored key 0 and
  \<^verbatim>\<open>has(0)\<close> is true, yet \<^verbatim>\<open>delete(0)\<close> returns false and changes nothing: the entry
  stays, nothing is snapshotted.
\<close>

theorem delete_zero_key:
  "theMap zero_key_state 0 = Some [(Num 0, Str ''a'')]
   \<and> getKeyUsedByMap_of zero_key_state [(Num 0, Str ''a'')] (Num 0) = Num 0
   \<and> DimmerMap_has zero_key_state 1 (Num 0) = Inr True
   \<and> DimmerMap_delete zero_key_state 1 (Num 0) = Inr (Bool False, zero_key_state)"
  by (simp add: run_defs zero_key_state_def DimmerMap_has_def)

text \<open>
  C3, under aliasing. The map holds \<^verbatim>\<open>c -> 'v0'\<close>; the scope calls \<^verbatim>\<open>delete(c)\<close> and
  \<^verbatim>\<open>set(pc, 'v1')\<close> for the view \<open>pc\<close> of \<open>c\<close>. The patch is \<^verbatim>\<open>c -> 'v0'\<close>, the map holds
  \<^verbatim>\<open>pc -> 'v1'\<close> and \<^verbatim>\<open>get(c)\<close> is \<^verbatim>\<open>'v1'\<close>. \<^verbatim>\<open>createReversePatch\<close> asks the map for
  the raw key \<open>c\<close> and records \<^verbatim>\<open>c -> NO_ENTRY\<close>; after \<^verbatim>\<open>undoPatch\<close> of the patch and of
  the reverse patch the map is empty and \<^verbatim>\<open>get(c)\<close> is \<^verbatim>\<open>undefined\<close>.
\<close>

theorem reverse_patch_alias:
  "(case recordPatches delete_then_set (alias_state [(Ref 1, Str ''v0'')]) (Ref 0) of
      Inl e \<Rightarrow> False
    | Inr (changes, s1) \<Rightarrow>
        changes = [Ref 4]
        \<and> theMap s1 4 = Some [(Ref 1, Str ''v0'')]
        \<and> theMap s1 0 = Some [(Ref 3, Str ''v1'')]
        \<and> DimmerMap_get s1 2 (Ref 1) = Inr (Str ''v1'', s1)
        \<and> (case createReversePatch s1 (Ref 4) of
              Inl e \<Rightarrow> False
            | Inr (r, s2) \<Rightarrow> r = Ref 5 \<and> theMap s2 5 = Some [(Ref 1, NoEntry)])
        \<and> (case reverse_roundtrip s1 (Ref 4) of
              Inl e \<Rightarrow> False
            | Inr s4 \<Rightarrow> theMap s4 0 = Some []
                        \<and> DimmerMap_get s4 2 (Ref 1) = Inr (Undefined, s4)))"
  by (simp add: run_defs alias_state_def delete_then_set_def reverse_roundtrip_def)

text \<open>
  C4, under aliasing. The map is empty; the scope calls \<^verbatim>\<open>set(c, 'v1')\<close>, \<^verbatim>\<open>delete(c)\<close>
  and \<^verbatim>\<open>set(pc, 'v2')\<close>. The patch is \<^verbatim>\<open>c -> NO_ENTRY\<close> and the map holds \<^verbatim>\<open>pc -> 'v2'\<close>,
  which is the entry the key \<open>c\<close> resolves to. \<^verbatim>\<open>undoPatch\<close> deletes the raw key \<open>c\<close>,
  not the resolved one, and the entry stays.
\<close>

theorem undo_NoEntry_alias:
  "(case recordPatches set_delete_set (alias_state []) (Ref 0) of
      Inl e \<Rightarrow> False
    | Inr (changes, s1) \<Rightarrow>
        changes = [Ref 4]
        \<and> theMap s1 4 = Some [(Ref 1, NoEntry)]
        \<and> theMap s1 0 = Some [(Ref 3, Str ''v2'')]
        \<and> getKeyUsedByMap_of s1 [(Ref 3, Str ''v2'')] (Ref 1) = Ref 3
        \<and> (case undoPatch s1 (Ref 4) of
              Inl e \<Rightarrow> False
            | Inr s2 \<Rightarrow> theMap s2 0 = Some [(Ref 3, Str ''v2'')]))"
  by (simp add: run_defs alias_state_def set_delete_set_def)

section \<open>What the view records, for keys that are truthy\<close>

lemma Map_set_twice: "Map_set (Map_set es k v) k v' = Map_set es k v'"
  by (induction es) auto

lemma theDimmerMap_store_same:
  "m < length (heap s) \<Longrightarrow> theDimmerMap (store s m (DimmerMap t d)) m = Some (t, d)"
  by (simp add: theDimmerMap_def objAt_def store_def)

lemma theDimmerMap_store_other:
  "a \<noteq> m \<Longrightarrow> theDimmerMap (store s a ob) m = theDimmerMap s m"
  by (simp add: theDimmerMap_def objAt_def store_def)

lemma theMap_store_other:
  "a \<noteq> t \<Longrightarrow> theMap (store s a ob) t = theMap s t"
  by (simp add: theMap_def objAt_def store_def)

lemma ORIGINAL_of_store_DimmerMap:
  assumes "theDimmerMap s m = Some (t, d)"
  shows "ORIGINAL_of (store s m (DimmerMap t d')) w = ORIGINAL_of s w"
proof (cases w)
  case (Ref a)
  from theDimmerMap_SomeD[OF assms] show ?thesis
    by (cases "a = m") (simp_all add: Ref ORIGINAL_of_def objAt_def store_def)
qed (simp_all add: ORIGINAL_of_def)

lemma ORIGINAL_of_store_MapObj:
  assumes "theMap s t = Some es"
  shows "ORIGINAL_of (store s t (MapObj es')) w = ORIGINAL_of s w"
proof (cases w)
  case (Ref a)
  from theMap_SomeD[OF assms] show ?thesis
    by (cases "a = t") (simp_all add: Ref ORIGINAL_of_def objAt_def store_def)
qed (simp_all add: ORIGINAL_of_def)

lemma ORIGINAL_of_modified: "ORIGINAL_of (s\<lparr>modified := ms\<rparr>) w = ORIGINAL_of s w"
  by (cases w) (simp_all add: ORIGINAL_of_def objAt_def)

lemma theMap_modified: "theMap (s\<lparr>modified := ms\<rparr>) t = theMap s t"
  by (simp add: theMap_def objAt_def)

lemma theDimmerMap_modified: "theDimmerMap (s\<lparr>modified := ms\<rparr>) m = theDimmerMap s m"
  by (simp add: theDimmerMap_def objAt_def)

lemma view_target_distinct:
  "theDimmerMap s m = Some (t, d) \<Longrightarrow> theMap s t = Some es \<Longrightarrow> m \<noteq> t"
  by (auto dest!: theDimmerMap_SomeD theMap_SomeD)

text \<open>What one call of \<^verbatim>\<open>set\<close> leaves.\<close>

lemma DimmerMap_set_effect:
  assumes m: "theDimmerMap s m = Some (t, d)" and t: "theMap s t = Some es"
    and ck: "ck = getKeyUsedByMap_of s es k"
    and r: "recorded = (Map_has d (asOriginal s k)
                        \<or> (truthy (tryGetProxy s k) \<and> Map_has d (tryGetProxy s k)))"
  shows "\<exists>s'. DimmerMap_set s m k v = Inr (Ref m, s')
           \<and> theDimmerMap s' m =
                Some (t, if recorded then d
                         else if truthy ck then Map_set d ck (Map_get es ck)
                         else Map_set d k NoEntry)
           \<and> theMap s' t = Some (Map_set es (js_or ck k) v)
           \<and> objectToProxy s' = objectToProxy s
           \<and> patchToTarget s' = patchToTarget s
           \<and> (\<forall>w. ORIGINAL_of s' w = ORIGINAL_of s w)
           \<and> length (heap s') = length (heap s)
           \<and> modified s' = (if recorded then modified s else Set_add (modified s) (Ref t))"
proof -
  from theDimmerMap_SomeD[OF m] have ml: "m < length (heap s)" by simp
  from theMap_SomeD[OF t] have tl: "t < length (heap s)" by simp
  have ne: "m \<noteq> t" by (rule view_target_distinct[OF m t])
  let ?d' = "if truthy ck then Map_set d ck (Map_get es ck) else Map_set d k NoEntry"
  let ?s1 = "if recorded then s
             else store (s\<lparr>modified := Set_add (modified s) (Ref t)\<rparr>) m (DimmerMap t ?d')"
  let ?s2 = "store ?s1 t (MapObj (Map_set es (js_or ck k) v))"
  have run: "DimmerMap_set s m k v = Inr (Ref m, ?s2)"
    by (simp add: DimmerMap_set_def m t ck r getKeyUsedByMap_of_def Let_def)
  have m1: "theDimmerMap ?s1 m = Some (t, if recorded then d else ?d')"
    using ml m by (simp add: theDimmerMap_store_same)
  have t1: "theMap ?s1 t = Some es"
    using ne t by (simp add: theMap_store_other theMap_modified)
  have o1: "ORIGINAL_of ?s1 w = ORIGINAL_of s w" for w
  proof (cases recorded)
    case False
    have "theDimmerMap (s\<lparr>modified := Set_add (modified s) (Ref t)\<rparr>) m = Some (t, d)"
      using m by (simp add: theDimmerMap_modified)
    from ORIGINAL_of_store_DimmerMap[OF this] False show ?thesis
      by (simp add: ORIGINAL_of_modified)
  qed simp
  have l1: "length (heap ?s1) = length (heap s)" by (simp add: store_def)
  have "theDimmerMap ?s2 m = Some (t, if recorded then d else ?d')"
    using m1 ne by (simp only: theDimmerMap_store_other[OF ne[symmetric]])
  moreover have "theMap ?s2 t = Some (Map_set es (js_or ck k) v)"
    using tl l1 by (simp only: theMap_store_same)
  moreover have "objectToProxy ?s2 = objectToProxy s" "patchToTarget ?s2 = patchToTarget s"
    by (simp_all add: store_def)
  moreover have "\<forall>w. ORIGINAL_of ?s2 w = ORIGINAL_of s w"
    using ORIGINAL_of_store_MapObj[OF t1] o1 by simp
  moreover have "length (heap ?s2) = length (heap s)" by (simp add: store_def)
  moreover have "modified ?s2 = (if recorded then modified s else Set_add (modified s) (Ref t))"
    by (simp add: store_def)
  ultimately show ?thesis using run by (intro exI[of _ ?s2]) simp
qed

text \<open>What one call of \<^verbatim>\<open>delete\<close> leaves, for a resolved key that is truthy.\<close>

lemma DimmerMap_delete_effect:
  assumes m: "theDimmerMap s m = Some (t, d)" and t: "theMap s t = Some es"
    and ck: "ck = getKeyUsedByMap_of s es k" and tk: "truthy ck"
    and r: "recorded = (Map_has d (asOriginal s k)
                        \<or> (truthy (tryGetProxy s k) \<and> Map_has d (tryGetProxy s k)))"
  shows "\<exists>s'. DimmerMap_delete s m k = Inr (Bool (Map_has es ck), s')
           \<and> theDimmerMap s' m =
                Some (t, if recorded then d else Map_set d ck (Map_get es ck))
           \<and> theMap s' t = Some (Map_delete es ck)
           \<and> objectToProxy s' = objectToProxy s
           \<and> patchToTarget s' = patchToTarget s
           \<and> (\<forall>w. ORIGINAL_of s' w = ORIGINAL_of s w)
           \<and> length (heap s') = length (heap s)
           \<and> modified s' = (if recorded then modified s else Set_add (modified s) (Ref t))"
proof -
  from theDimmerMap_SomeD[OF m] have ml: "m < length (heap s)" by simp
  from theMap_SomeD[OF t] have tl: "t < length (heap s)" by simp
  have ne: "m \<noteq> t" by (rule view_target_distinct[OF m t])
  let ?d' = "Map_set d ck (Map_get es ck)"
  let ?s1 = "if recorded then s
             else store (s\<lparr>modified := Set_add (modified s) (Ref t)\<rparr>) m (DimmerMap t ?d')"
  let ?s2 = "store ?s1 t (MapObj (Map_delete es ck))"
  have run: "DimmerMap_delete s m k = Inr (Bool (Map_has es ck), ?s2)"
    using tk by (simp add: DimmerMap_delete_def m t ck r getKeyUsedByMap_of_def Let_def)
  have m1: "theDimmerMap ?s1 m = Some (t, if recorded then d else ?d')"
    using ml m by (simp add: theDimmerMap_store_same)
  have t1: "theMap ?s1 t = Some es"
    using ne t by (simp add: theMap_store_other theMap_modified)
  have o1: "ORIGINAL_of ?s1 w = ORIGINAL_of s w" for w
  proof (cases recorded)
    case False
    have "theDimmerMap (s\<lparr>modified := Set_add (modified s) (Ref t)\<rparr>) m = Some (t, d)"
      using m by (simp add: theDimmerMap_modified)
    from ORIGINAL_of_store_DimmerMap[OF this] False show ?thesis
      by (simp add: ORIGINAL_of_modified)
  qed simp
  have l1: "length (heap ?s1) = length (heap s)" by (simp add: store_def)
  have "theDimmerMap ?s2 m = Some (t, if recorded then d else ?d')"
    using m1 ne by (simp only: theDimmerMap_store_other[OF ne[symmetric]])
  moreover have "theMap ?s2 t = Some (Map_delete es ck)"
    using tl l1 by (simp only: theMap_store_same)
  moreover have "objectToProxy ?s2 = objectToProxy s" "patchToTarget ?s2 = patchToTarget s"
    by (simp_all add: store_def)
  moreover have "\<forall>w. ORIGINAL_of ?s2 w = ORIGINAL_of s w"
    using ORIGINAL_of_store_MapObj[OF t1] o1 by simp
  moreover have "length (heap ?s2) = length (heap s)" by (simp add: store_def)
  moreover have "modified ?s2 = (if recorded then modified s else Set_add (modified s) (Ref t))"
    by (simp add: store_def)
  ultimately show ?thesis using run by (intro exI[of _ ?s2]) simp
qed

text \<open>A resolved key is one of the two candidates, and the map holds it.\<close>

lemma getKeyUsedByMap_truthy:
  assumes "truthy (getKeyUsedByMap es k p ok)"
  shows "Map_has es (getKeyUsedByMap es k p ok)
         \<and> ((truthy p \<and> getKeyUsedByMap es k p ok = p) \<or> getKeyUsedByMap es k p ok = ok)"
  using assms by (auto simp: getKeyUsedByMap_def split: if_splits)

lemma getKeyUsedByMap_after_set:
  assumes "truthy (getKeyUsedByMap es k p ok)"
  shows "getKeyUsedByMap (Map_set es (getKeyUsedByMap es k p ok) v) k p ok
           = getKeyUsedByMap es k p ok"
  using assms by (auto simp: getKeyUsedByMap_def Map_has_Map_set split: if_splits)

text \<open>Committing when the view of one map is all that was modified.\<close>

lemma commitPatches_single:
  assumes md: "modified s = [Ref t]" and reg: "tryGetProxy s (Ref t) = Ref m"
    and m: "theDimmerMap s m = Some (t, d)"
  shows "\<exists>s'. commitPatches s = ([Ref (length (heap s))], s')
           \<and> theMap s' (length (heap s)) = Some d
           \<and> theDimmerMap s' m = Some (t, [])
           \<and> (\<forall>a. a \<noteq> m \<longrightarrow> a < length (heap s) \<longrightarrow> objAt s' a = objAt s a)
           \<and> wm_get (patchToTarget s') (Ref (length (heap s))) = Ref t
           \<and> objectToProxy s' = objectToProxy s"
proof -
  from theDimmerMap_SomeD[OF m] have ml: "m < length (heap s)" and hm: "heap s ! m = DimmerMap t d"
    by simp_all
  let ?n = "length (heap s)"
  let ?s' = "store (s\<lparr>heap := heap s @ [MapObj d],
                       patchToTarget := (patchToTarget s)(?n \<mapsto> Ref t)\<rparr>) m (DimmerMap t [])"
  have run: "commitPatches s = ([Ref ?n], ?s')"
    using reg ml hm
    by (simp add: commitPatches_def md tryGetProxy_def objAt_def commit_view_def alloc_def Let_def)
  have "theMap ?s' ?n = Some d"
    using ml by (simp add: theMap_def objAt_def store_def nth_append)
  moreover have "theDimmerMap ?s' m = Some (t, [])"
    using ml by (simp add: theDimmerMap_def objAt_def store_def)
  moreover have "\<forall>a. a \<noteq> m \<longrightarrow> a < ?n \<longrightarrow> objAt ?s' a = objAt s a"
    by (simp add: objAt_def store_def nth_append)
  moreover have "wm_get (patchToTarget ?s') (Ref ?n) = Ref t"
    by (simp add: wm_get_def store_def)
  moreover have "objectToProxy ?s' = objectToProxy s" by (simp add: store_def)
  ultimately show ?thesis using run by (intro exI[of _ ?s']) simp
qed

lemma asOriginal_cong:
  "ORIGINAL_of s' k = ORIGINAL_of s k \<Longrightarrow> asOriginal s' k = asOriginal s k"
  by (simp add: asOriginal_def)

lemma tryGetProxy_cong:
  "objectToProxy s' = objectToProxy s \<Longrightarrow> tryGetProxy s' k = tryGetProxy s k"
  by (simp add: tryGetProxy_def)

text \<open>
  First write wins, where the key resolves to a stored key that is truthy (every object,
  every non-empty string, every number but 0). The view of the map \<open>t\<close> is registered and
  its open patch is empty; the scope calls \<^verbatim>\<open>set(k, va); set(k, vb)\<close>. The batch is one
  patch, linked to \<open>t\<close>, whose only entry maps the stored key to the value the map held
  under it before the scope; the map holds \<open>vb\<close> under that key.
\<close>

theorem first_write_wins:
  assumes m: "theDimmerMap s m = Some (t, [])" and t: "theMap s t = Some es"
    and view: "tryGetProxy s (Ref t) = Ref m"
    and tk: "truthy (getKeyUsedByMap_of s es k)"
  shows "case recordPatches (set_twice k va vb) s (Ref t) of
           Inl e \<Rightarrow> False
         | Inr (changes, s') \<Rightarrow>
             changes = [Ref (length (heap s))]
             \<and> theMap s' (length (heap s))
                 = Some [(getKeyUsedByMap_of s es k, Map_get es (getKeyUsedByMap_of s es k))]
             \<and> theMap s' t = Some (Map_set es (getKeyUsedByMap_of s es k) vb)
             \<and> wm_get (patchToTarget s') (Ref (length (heap s))) = Ref t"
proof -
  let ?s0 = "createContext s"
  let ?ck = "getKeyUsedByMap_of s es k"
  let ?p = "tryGetProxy s k" and ?o = "asOriginal s k"
  have m0: "theDimmerMap ?s0 m = Some (t, [])" and t0: "theMap ?s0 t = Some es"
    using m t by (simp_all add: createContext_def theDimmerMap_modified theMap_modified)
  have p0: "tryGetProxy ?s0 w = tryGetProxy s w" for w
    by (simp add: createContext_def tryGetProxy_def)
  have o0: "asOriginal ?s0 w = asOriginal s w" for w
    by (simp add: createContext_def asOriginal_def ORIGINAL_of_modified)
  have ck0: "getKeyUsedByMap_of ?s0 es' k = getKeyUsedByMap_of s es' k" for es'
    by (simp add: getKeyUsedByMap_of_def p0 o0)
  have md0: "modified ?s0 = []" by (simp add: createContext_def)
  have l0: "length (heap ?s0) = length (heap s)" by (simp add: createContext_def)
  have jk: "js_or ?ck k = ?ck" using tk by (simp add: js_or_def)
  from DimmerMap_set_effect[OF m0 t0 refl refl, of k va] obtain s1 where
    run1: "DimmerMap_set ?s0 m k va = Inr (Ref m, s1)"
    and m1: "theDimmerMap s1 m = Some (t, [(?ck, Map_get es ?ck)])"
    and t1: "theMap s1 t = Some (Map_set es ?ck va)"
    and r1: "objectToProxy s1 = objectToProxy ?s0"
    and o1: "\<forall>w. ORIGINAL_of s1 w = ORIGINAL_of ?s0 w"
    and l1: "length (heap s1) = length (heap ?s0)"
    and md1: "modified s1 = [Ref t]"
    using tk by (auto simp: ck0 jk md0 Map_has_def Set_add_def)
  have p1: "tryGetProxy s1 k = ?p" using r1 by (simp add: tryGetProxy_def createContext_def)
  have a1: "asOriginal s1 k = ?o" using o1 o0 by (simp add: asOriginal_def)
  have tk': "truthy (getKeyUsedByMap es k ?p ?o)" using tk by (simp add: getKeyUsedByMap_of_def)
  have ck1: "getKeyUsedByMap_of s1 (Map_set es ?ck va) k = ?ck"
    using getKeyUsedByMap_after_set[OF tk', of va] by (simp add: getKeyUsedByMap_of_def p1 a1)
  have rec1: "Map_has [(?ck, Map_get es ?ck)] (asOriginal s1 k)
              \<or> (truthy (tryGetProxy s1 k) \<and> Map_has [(?ck, Map_get es ?ck)] (tryGetProxy s1 k))"
    using getKeyUsedByMap_truthy[OF tk']
    by (auto simp: p1 a1 Map_has_def getKeyUsedByMap_of_def)
  from DimmerMap_set_effect[OF m1 t1 refl refl, of k vb] obtain s2 where
    run2: "DimmerMap_set s1 m k vb = Inr (Ref m, s2)"
    and m2: "theDimmerMap s2 m = Some (t, [(?ck, Map_get es ?ck)])"
    and t2: "theMap s2 t = Some (Map_set es ?ck vb)"
    and r2: "objectToProxy s2 = objectToProxy s1"
    and l2: "length (heap s2) = length (heap s1)"
    and md2: "modified s2 = [Ref t]"
    using rec1 by (auto simp: ck1 jk md1 Map_set_twice)
  have v2: "tryGetProxy s2 (Ref t) = Ref m"
    using view r2 r1 by (simp add: tryGetProxy_def createContext_def)
  have ne: "t \<noteq> m" using view_target_distinct[OF m t] by simp
  from theMap_SomeD[OF t] have tl: "t < length (heap s2)" by (simp add: l2 l1 l0)
  from commitPatches_single[OF md2 v2 m2] obtain s3 where
    run3: "commitPatches s2 = ([Ref (length (heap s2))], s3)"
    and p3: "theMap s3 (length (heap s2)) = Some [(?ck, Map_get es ?ck)]"
    and f3: "\<forall>a. a \<noteq> m \<longrightarrow> a < length (heap s2) \<longrightarrow> objAt s3 a = objAt s2 a"
    and w3: "wm_get (patchToTarget s3) (Ref (length (heap s2))) = Ref t"
    by auto
  have t3: "theMap s3 t = Some (Map_set es ?ck vb)"
    using f3 ne tl t2 by (simp add: theMap_def)
  have ln: "length (heap s2) = length (heap s)" by (simp add: l2 l1 l0)
  have scope: "set_twice k va vb (Ref m) ?s0 = Inr (Ref m, s2)"
    by (simp add: set_twice_def and_then_def run1 run2)
  have "recordPatches (set_twice k va vb) s (Ref t)
          = Inr ([Ref (length (heap s))], clearContext s3)"
    using view by (simp add: recordPatches_def p0 scope run3 ln Let_def)
  moreover have "theMap (clearContext s3) a = theMap s3 a" for a
    by (simp add: clearContext_def theMap_modified)
  moreover have "patchToTarget (clearContext s3) = patchToTarget s3"
    by (simp add: clearContext_def)
  ultimately show ?thesis using p3 t3 w3 by (simp add: ln)
qed

text \<open>
  The theorem at a map keyed by a container, written through the view of the container.
\<close>

theorem first_write_wins_witness:
  "theDimmerMap (alias_state [(Ref 1, Str ''v0'')]) 2 = Some (0, [])
   \<and> tryGetProxy (alias_state [(Ref 1, Str ''v0'')]) (Ref 0) = Ref 2
   \<and> getKeyUsedByMap_of (alias_state [(Ref 1, Str ''v0'')]) [(Ref 1, Str ''v0'')] (Ref 3) = Ref 1
   \<and> (case recordPatches (set_twice (Ref 3) (Str ''v1'') (Str ''v2''))
              (alias_state [(Ref 1, Str ''v0'')]) (Ref 0) of
         Inl e \<Rightarrow> False
       | Inr (changes, s') \<Rightarrow>
           changes = [Ref 4] \<and> theMap s' 4 = Some [(Ref 1, Str ''v0'')]
           \<and> theMap s' 0 = Some [(Ref 1, Str ''v2'')])"
proof -
  let ?s = "alias_state [(Ref 1, Str ''v0'')]"
  have m: "theDimmerMap ?s 2 = Some (0, [])"
    by (simp add: alias_state_def theDimmerMap_def objAt_def)
  have t: "theMap ?s 0 = Some [(Ref 1, Str ''v0'')]"
    by (simp add: alias_state_def theMap_def objAt_def)
  have v: "tryGetProxy ?s (Ref 0) = Ref 2"
    by (simp add: alias_state_def tryGetProxy_def wm_get_def)
  have k: "getKeyUsedByMap_of ?s [(Ref 1, Str ''v0'')] (Ref 3) = Ref 1"
    by (simp add: alias_state_def getKeyUsedByMap_of_def getKeyUsedByMap_def tryGetProxy_def
        wm_get_def asOriginal_def ORIGINAL_of_def objAt_def js_or_def js_and_def Map_has_def)
  have tk: "truthy (getKeyUsedByMap_of ?s [(Ref 1, Str ''v0'')] (Ref 3))"
    by (simp only: k truthy.simps)
  have l: "length (heap ?s) = 4" by (simp add: alias_state_def)
  have r: "case recordPatches (set_twice (Ref 3) (Str ''v1'') (Str ''v2'')) ?s (Ref 0) of
         Inl e \<Rightarrow> False
       | Inr (changes, s') \<Rightarrow>
           changes = [Ref 4] \<and> theMap s' 4 = Some [(Ref 1, Str ''v0'')]
           \<and> theMap s' 0 = Some [(Ref 1, Str ''v2'')]"
    using first_write_wins[OF m t v tk, where va = "Str ''v1''" and vb = "Str ''v2''"]
    by (auto simp: k l Map_get_def simp del: One_nat_def split: sum.splits)
  from m v k r show ?thesis by simp
qed

text \<open>
  \<^verbatim>\<open>delete(k)\<close> for a key that resolves to no entry, neither under its tracking view nor
  under the raw key: the answer is false and the state is as it was.
\<close>

theorem delete_unresolved_key:
  assumes m: "theDimmerMap s m = Some (t, d)" and t: "theMap s t = Some es"
    and no: "\<not> (truthy (tryGetProxy s k) \<and> Map_has es (tryGetProxy s k))"
            "\<not> Map_has es (asOriginal s k)"
  shows "DimmerMap_delete s m k = Inr (Bool False, s)"
  using no by (simp add: DimmerMap_delete_def m t getKeyUsedByMap_def Let_def)

theorem delete_unresolved_key_witness:
  "theMap (alias_state [(Ref 1, Str ''v0'')]) 0 = Some [(Ref 1, Str ''v0'')]
   \<and> \<not> Map_has [(Ref 1, Str ''v0'')] (Str ''b'')
   \<and> DimmerMap_delete (alias_state [(Ref 1, Str ''v0'')]) 2 (Str ''b'')
       = Inr (Bool False, alias_state [(Ref 1, Str ''v0'')])"
proof -
  let ?s = "alias_state [(Ref 1, Str ''v0'')]"
  have m: "theDimmerMap ?s 2 = Some (0, [])"
    by (simp add: alias_state_def theDimmerMap_def objAt_def)
  have t: "theMap ?s 0 = Some [(Ref 1, Str ''v0'')]"
    by (simp add: alias_state_def theMap_def objAt_def)
  have n1: "\<not> (truthy (tryGetProxy ?s (Str ''b''))
               \<and> Map_has [(Ref 1, Str ''v0'')] (tryGetProxy ?s (Str ''b'')))"
    by (simp add: tryGetProxy_def wm_get_def)
  have n2: "\<not> Map_has [(Ref 1, Str ''v0'')] (asOriginal ?s (Str ''b''))"
    by (simp add: asOriginal_def ORIGINAL_of_def js_or_def js_and_def Map_has_def)
  have n3: "\<not> Map_has [(Ref 1, Str ''v0'')] (Str ''b'')" by (simp add: Map_has_def)
  from t n3 delete_unresolved_key[OF m t n1 n2] show ?thesis by simp
qed

text \<open>
  \<^verbatim>\<open>delete(k)\<close> for a key that resolves to a stored key that is truthy: the answer is
  true and the entry is removed; its value is put into the open patch, and the map into
  \<^verbatim>\<open>modified\<close>, unless the open patch already holds the key.
\<close>

theorem delete_resolved_key:
  assumes m: "theDimmerMap s m = Some (t, d)" and t: "theMap s t = Some es"
    and tk: "truthy (getKeyUsedByMap_of s es k)"
  shows "case DimmerMap_delete s m k of
           Inl e \<Rightarrow> False
         | Inr (r, s') \<Rightarrow>
             r = Bool True
             \<and> theMap s' t = Some (Map_delete es (getKeyUsedByMap_of s es k))
             \<and> (if Map_has d (asOriginal s k)
                    \<or> (truthy (tryGetProxy s k) \<and> Map_has d (tryGetProxy s k))
                 then theDimmerMap s' m = Some (t, d) \<and> modified s' = modified s
                 else theDimmerMap s' m
                        = Some (t, Map_set d (getKeyUsedByMap_of s es k)
                                     (Map_get es (getKeyUsedByMap_of s es k)))
                      \<and> modified s' = Set_add (modified s) (Ref t))"
proof -
  let ?ck = "getKeyUsedByMap_of s es k"
  have tk': "truthy (getKeyUsedByMap es k (tryGetProxy s k) (asOriginal s k))"
    using tk by (simp add: getKeyUsedByMap_of_def)
  from getKeyUsedByMap_truthy[OF tk'] have has: "Map_has es ?ck"
    by (simp add: getKeyUsedByMap_of_def)
  from DimmerMap_delete_effect[OF m t refl tk refl] has show ?thesis
    by auto
qed

theorem delete_resolved_key_witness:
  "theDimmerMap (alias_state [(Ref 1, Str ''v0'')]) 2 = Some (0, [])
   \<and> getKeyUsedByMap_of (alias_state [(Ref 1, Str ''v0'')]) [(Ref 1, Str ''v0'')] (Ref 3) = Ref 1
   \<and> (case DimmerMap_delete (alias_state [(Ref 1, Str ''v0'')]) 2 (Ref 3) of
         Inl e \<Rightarrow> False
       | Inr (r, s') \<Rightarrow>
           r = Bool True \<and> theDimmerMap s' 2 = Some (0, [(Ref 1, Str ''v0'')])
           \<and> theMap s' 0 = Some [] \<and> modified s' = [Ref 0])"
proof -
  let ?s = "alias_state [(Ref 1, Str ''v0'')]"
  have m: "theDimmerMap ?s 2 = Some (0, [])"
    by (simp add: alias_state_def theDimmerMap_def objAt_def)
  have t: "theMap ?s 0 = Some [(Ref 1, Str ''v0'')]"
    by (simp add: alias_state_def theMap_def objAt_def)
  have k: "getKeyUsedByMap_of ?s [(Ref 1, Str ''v0'')] (Ref 3) = Ref 1"
    by (simp add: alias_state_def getKeyUsedByMap_of_def getKeyUsedByMap_def tryGetProxy_def
        wm_get_def asOriginal_def ORIGINAL_of_def objAt_def js_or_def js_and_def Map_has_def)
  have tk: "truthy (getKeyUsedByMap_of ?s [(Ref 1, Str ''v0'')] (Ref 3))"
    by (simp only: k truthy.simps)
  have md: "modified ?s = []" by (simp add: alias_state_def)
  have r: "case DimmerMap_delete ?s 2 (Ref 3) of
         Inl e \<Rightarrow> False
       | Inr (r, s') \<Rightarrow>
           r = Bool True \<and> theDimmerMap s' 2 = Some (0, [(Ref 1, Str ''v0'')])
           \<and> theMap s' 0 = Some [] \<and> modified s' = [Ref 0]"
    using delete_resolved_key[OF m t tk]
    by (auto simp: k md Map_get_def Map_has_def Map_delete_def Set_add_def asOriginal_def
        js_or_def js_and_def simp del: One_nat_def split: sum.splits if_splits)
  from m k r show ?thesis by simp
qed

section \<open>Undoing and reversing a patch whose keys have no alias\<close>

lemma keys_Map_set_set: "fst ` set (Map_set es k v) = insert k (fst ` set es)"
  by (induction es) auto

lemma distinct_Map_set: "distinct (map fst es) \<Longrightarrow> distinct (map fst (Map_set es k v))"
  by (induction es) (auto simp: keys_Map_set_set)

lemma getKeyUsedByMap_unaliased:
  "unaliased s k \<Longrightarrow> getKeyUsedByMap_of s es k = (if Map_has es k then k else Undefined)"
  by (auto simp: unaliased_def getKeyUsedByMap_of_def getKeyUsedByMap_def)

lemma undo_map_entry_unaliased:
  assumes "unaliased s (fst kv)"
  shows "map_of (undo_map_entry s es kv) = undo_fun (map_of es) kv"
  using assms
  by (auto simp: undo_map_entry_def undo_fun_def getKeyUsedByMap_unaliased Let_def
      map_of_Map_set map_of_Map_delete)

lemma undo_loop_unaliased:
  assumes "\<forall>k \<in> fst ` set ps. unaliased s k"
  shows "map_of (foldl (undo_map_entry s) es ps) = foldl undo_fun (map_of es) ps"
  using assms
proof (induction ps arbitrary: es)
  case Nil
  then show ?case by simp
next
  case (Cons kv ps)
  then show ?case by (simp add: undo_map_entry_unaliased)
qed

lemma undo_fun_other: "k \<notin> fst ` set ps \<Longrightarrow> foldl undo_fun f ps k = f k"
  by (induction ps arbitrary: f) (auto simp: undo_fun_def)

lemma undo_fun_key:
  assumes "distinct (map fst ps)" "(k, v) \<in> set ps"
  shows "foldl undo_fun f ps k = (if v \<noteq> NoEntry then Some v else None)"
  using assms
proof (induction ps arbitrary: f)
  case Nil
  then show ?case by simp
next
  case (Cons kv ps)
  show ?case
  proof (cases "kv = (k, v)")
    case True
    with Cons.prems have "k \<notin> fst ` set ps" by auto
    then have "foldl undo_fun (undo_fun f kv) ps k = undo_fun f kv k"
      by (rule undo_fun_other)
    also have "\<dots> = (if v \<noteq> NoEntry then Some v else None)"
      using True by (simp add: undo_fun_def)
    finally show ?thesis by simp
  next
    case False
    with Cons show ?thesis by auto
  qed
qed

lemma reverse_loop_map_of:
  "map_of (foldl (reverse_map_key es) acc ks)
     = (\<lambda>k. if k \<in> set ks then Some (reverse_value es k) else map_of acc k)"
proof (induction ks arbitrary: acc)
  case Nil
  then show ?case by simp
next
  case (Cons k ks)
  have "reverse_map_key es acc k = Map_set acc k (reverse_value es k)"
    by (simp add: reverse_map_key_def reverse_value_def)
  then show ?case by (auto simp: Cons.IH map_of_Map_set)
qed

lemma reverse_loop_distinct:
  "distinct (map fst acc) \<Longrightarrow> distinct (map fst (foldl (reverse_map_key es) acc ks))"
  by (induction ks arbitrary: acc) (auto simp: reverse_map_key_def distinct_Map_set)

lemma reverse_loop_keys:
  "fst ` set (foldl (reverse_map_key es) acc ks) = fst ` set acc \<union> set ks"
  by (induction ks arbitrary: acc) (auto simp: reverse_map_key_def keys_Map_set_set)

lemma ORIGINAL_of_createPatch:
  assumes "createPatch s (MapObj rp) target = (r, s1)"
  shows "ORIGINAL_of s1 w = ORIGINAL_of s w"
proof (cases w)
  case (Ref a)
  from assms show ?thesis
    by (cases "a < length (heap s)")
       (auto simp: Ref createPatch_def alloc_def ORIGINAL_of_def objAt_def nth_append)
qed (simp_all add: ORIGINAL_of_def)

lemma unaliased_cong:
  assumes "\<And>w. ORIGINAL_of s' w = ORIGINAL_of s w" "objectToProxy s' = objectToProxy s"
  shows "unaliased s' k = unaliased s k"
  using assms by (simp add: unaliased_def asOriginal_def tryGetProxy_def)

text \<open>
  \<^verbatim>\<open>createReversePatch(p)\<close> for the patch \<open>p\<close> of a map \<open>t\<close>: a fresh patch, linked to
  \<open>t\<close>, with the keys of \<open>p\<close>; each key is mapped to the value the map holds under this
  very key, or to \<^verbatim>\<open>NO_ENTRY\<close> when the map does not hold the key. The map is not changed.
\<close>

theorem createReversePatch_map_entries:
  assumes pt: "wm_get (patchToTarget s) (Ref p) = Ref t"
    and t: "theMap s t = Some es" and p: "theMap s p = Some ps"
  shows "case createReversePatch s (Ref p) of
           Inl e \<Rightarrow> False
         | Inr (r, s1) \<Rightarrow>
             r = Ref (length (heap s))
             \<and> wm_get (patchToTarget s1) r = Ref t
             \<and> theMap s1 t = Some es
             \<and> (case theMap s1 (length (heap s)) of
                   None \<Rightarrow> False
                 | Some rp \<Rightarrow>
                     distinct (map fst rp)
                     \<and> fst ` set rp = fst ` set ps
                     \<and> (\<forall>k \<in> fst ` set ps. Map_get rp k = reverse_value es k))"
proof -
  let ?n = "length (heap s)"
  let ?rp = "foldl (reverse_map_key es) [] (map fst ps)"
  from theMap_SomeD[OF t] have tl: "t < ?n" and ht: "heap s ! t = MapObj es" by simp_all
  from theMap_SomeD[OF p] have pl: "p < ?n" and hp: "heap s ! p = MapObj ps" by simp_all
  let ?s1 = "s\<lparr>heap := heap s @ [MapObj ?rp],
               patchToTarget := (patchToTarget s)(?n \<mapsto> Ref t)\<rparr>"
  have cp: "createPatch s (MapObj ?rp) (Ref t) = (Ref ?n, ?s1)"
    by (simp add: createPatch_def alloc_def)
  have rev: "createReversePatch s (Ref p) = Inr (Ref ?n, ?s1)"
    using pt tl pl ht hp by (simp add: createReversePatch_def objAt_def cp)
  have w: "wm_get (patchToTarget ?s1) (Ref ?n) = Ref t" by (simp add: wm_get_def)
  have t1: "theMap ?s1 t = Some es"
    using tl ht by (simp add: theMap_def objAt_def nth_append)
  have n1: "theMap ?s1 ?n = Some ?rp" by (simp add: theMap_def objAt_def)
  have d: "distinct (map fst ?rp)" by (simp add: reverse_loop_distinct)
  have k: "fst ` set ?rp = fst ` set ps" by (simp add: reverse_loop_keys)
  have v: "\<forall>k \<in> fst ` set ps. Map_get ?rp k = reverse_value es k"
    by (simp add: Map_get_def reverse_loop_map_of)
  show ?thesis using rev w t1 n1 d k v by simp
qed

text \<open>The theorem at the patch of a scope that wrote the key \<^verbatim>\<open>'a'\<close> twice.\<close>

theorem createReversePatch_map_entries_witness:
  "wm_get (patchToTarget committed_state) (Ref 2) = Ref 0
   \<and> (case createReversePatch committed_state (Ref 2) of
         Inl e \<Rightarrow> False
       | Inr (r, s1) \<Rightarrow> r = Ref 3 \<and> theMap s1 3 = Some [(Str ''a'', Num 3)])"
proof -
  have pt: "wm_get (patchToTarget committed_state) (Ref 2) = Ref 0"
    by (simp add: committed_state_def wm_get_def)
  have t: "theMap committed_state 0 = Some [(Str ''a'', Num 3)]"
    by (simp add: committed_state_def theMap_def objAt_def)
  have p: "theMap committed_state 2 = Some [(Str ''a'', Num 1)]"
    by (simp add: committed_state_def theMap_def objAt_def)
  have r: "case createReversePatch committed_state (Ref 2) of
         Inl e \<Rightarrow> False
       | Inr (r, s1) \<Rightarrow> r = Ref 3 \<and> theMap s1 3 = Some [(Str ''a'', Num 3)]"
    by (simp add: run_defs committed_state_def)
  show ?thesis
    using createReversePatch_map_entries[OF pt t p] pt r by (intro conjI) assumption+
qed

text \<open>
  The reverse-patch law for the patch \<open>p\<close> of a map \<open>t\<close>, where no key of the patch has an
  alias and the map holds \<^verbatim>\<open>NO_ENTRY\<close> under none of them: after
  \<^verbatim>\<open>r = createReversePatch(p); undoPatch(p); undoPatch(r)\<close> the map holds, key by key,
  what it held before. (The order of the entries may differ.)
\<close>

theorem reverse_patch_law_unaliased:
  assumes pt: "wm_get (patchToTarget s) (Ref p) = Ref t"
    and t: "theMap s t = Some es" and p: "theMap s p = Some ps"
    and un: "\<forall>k \<in> fst ` set ps. unaliased s k \<and> Map_get es k \<noteq> NoEntry"
  shows "case reverse_roundtrip s (Ref p) of
           Inl e \<Rightarrow> False
         | Inr s' \<Rightarrow> (case theMap s' t of
                        None \<Rightarrow> False
                      | Some es' \<Rightarrow> map_of es' = map_of es)"
proof -
  let ?n = "length (heap s)"
  let ?rp = "foldl (reverse_map_key es) [] (map fst ps)"
  from theMap_SomeD[OF t] have tl: "t < ?n" and ht: "heap s ! t = MapObj es" by simp_all
  from theMap_SomeD[OF p] have pl: "p < ?n" and hp: "heap s ! p = MapObj ps" by simp_all
  let ?s1 = "s\<lparr>heap := heap s @ [MapObj ?rp],
               patchToTarget := (patchToTarget s)(?n \<mapsto> Ref t)\<rparr>"
  have cp: "createPatch s (MapObj ?rp) (Ref t) = (Ref ?n, ?s1)"
    by (simp add: createPatch_def alloc_def)
  have rev: "createReversePatch s (Ref p) = Inr (Ref ?n, ?s1)"
    using pt tl pl ht hp by (simp add: createReversePatch_def objAt_def cp)
  have o1: "ORIGINAL_of ?s1 w = ORIGINAL_of s w" for w
    by (rule ORIGINAL_of_createPatch[OF cp])
  have un1: "unaliased ?s1 k = unaliased s k" for k
    by (rule unaliased_cong) (rule o1, simp)
  let ?es2 = "foldl (undo_map_entry ?s1) es ps"
  let ?s2 = "store ?s1 t (MapObj ?es2)"
  have pt1: "wm_get (patchToTarget ?s1) (Ref p) = Ref t"
    using pt pl by (simp add: wm_get_def)
  have u1: "undoPatch ?s1 (Ref p) = Inr ?s2"
    using pt1 tl pl ht hp by (simp add: undoPatch_def objAt_def nth_append)
  have t1: "theMap ?s1 t = Some es"
    using tl ht by (simp add: theMap_def objAt_def nth_append)
  have o2: "ORIGINAL_of ?s2 w = ORIGINAL_of s w" for w
    using ORIGINAL_of_store_MapObj[OF t1] o1 by simp
  have un2: "unaliased ?s2 k = unaliased s k" for k
    by (rule unaliased_cong) (rule o2, simp add: store_def)
  let ?es3 = "foldl (undo_map_entry ?s2) ?es2 ?rp"
  let ?s3 = "store ?s2 t (MapObj ?es3)"
  have pt2: "wm_get (patchToTarget ?s2) (Ref ?n) = Ref t"
    by (simp add: wm_get_def store_def)
  have ht2: "objAt ?s2 t = Some (MapObj ?es2)"
    using tl by (simp add: objAt_def store_def)
  have hn2: "objAt ?s2 ?n = Some (MapObj ?rp)"
    using tl by (simp add: objAt_def store_def nth_append)
  have u2: "undoPatch ?s2 (Ref ?n) = Inr ?s3"
    by (simp add: undoPatch_def pt2 ht2 hn2)
  have run: "reverse_roundtrip s (Ref p) = Inr ?s3"
    by (simp add: reverse_roundtrip_def rev u1 u2)
  have t3: "theMap ?s3 t = Some ?es3"
    using tl by (simp add: theMap_def objAt_def store_def)
  have keys: "fst ` set ?rp = fst ` set ps"
    by (simp add: reverse_loop_keys)
  have m2: "map_of ?es2 = foldl undo_fun (map_of es) ps"
    using un by (intro undo_loop_unaliased) (simp add: un1)
  have m3: "map_of ?es3 = foldl undo_fun (map_of ?es2) ?rp"
    using un by (intro undo_loop_unaliased) (simp add: un2 keys)
  have "map_of ?es3 k = map_of es k" for k
  proof (cases "k \<in> fst ` set ps")
    case False
    then show ?thesis by (simp add: m3 m2 undo_fun_other keys)
  next
    case True
    then have "map_of ?rp k = Some (reverse_value es k)"
      by (simp add: reverse_loop_map_of)
    then have mem: "(k, reverse_value es k) \<in> set ?rp" by (rule map_of_SomeD)
    have d: "distinct (map fst ?rp)" by (simp add: reverse_loop_distinct)
    have "map_of ?es3 k = (if reverse_value es k \<noteq> NoEntry then Some (reverse_value es k) else None)"
      unfolding m3 by (rule undo_fun_key[OF d mem])
    also have "\<dots> = map_of es k"
      using un True by (auto simp: reverse_value_def Map_has_def Map_get_def split: option.splits)
    finally show ?thesis .
  qed
  then have "map_of ?es3 = map_of es" by (rule ext)
  with run t3 show ?thesis by simp
qed

text \<open>The theorem at the patch of a scope that wrote the key \<^verbatim>\<open>'a'\<close> twice.\<close>

lemma committed_state_reached:
  "and_then (createRecordingProxy (raw_state [MapObj [(Str ''a'', Num 1)]]) (Ref 0))
     (\<lambda>view s. case recordPatches (set_twice (Str ''a'') (Num 2) (Num 3)) s (Ref 0) of
                   Inl e \<Rightarrow> Inl e | Inr (changes, s') \<Rightarrow> Inr (changes, s'))
   = Inr ([Ref 2], committed_state)"
  by (simp add: run_defs set_twice_def committed_state_def numeral_2_eq_2)

theorem reverse_patch_law_unaliased_witness:
  "wm_get (patchToTarget committed_state) (Ref 2) = Ref 0
   \<and> theMap committed_state 0 = Some [(Str ''a'', Num 3)]
   \<and> theMap committed_state 2 = Some [(Str ''a'', Num 1)]
   \<and> unaliased committed_state (Str ''a'')
   \<and> (case reverse_roundtrip committed_state (Ref 2) of
         Inl e \<Rightarrow> False
       | Inr s' \<Rightarrow> (case theMap s' 0 of
                      None \<Rightarrow> False
                    | Some es' \<Rightarrow> map_of es' = map_of [(Str ''a'', Num 3)]))"
proof -
  have pt: "wm_get (patchToTarget committed_state) (Ref 2) = Ref 0"
    by (simp add: committed_state_def wm_get_def)
  have t: "theMap committed_state 0 = Some [(Str ''a'', Num 3)]"
    by (simp add: committed_state_def theMap_def objAt_def)
  have p: "theMap committed_state 2 = Some [(Str ''a'', Num 1)]"
    by (simp add: committed_state_def theMap_def objAt_def)
  have u: "unaliased committed_state (Str ''a'')"
    by (simp add: unaliased_def asOriginal_def ORIGINAL_of_def js_or_def js_and_def
        tryGetProxy_def wm_get_def)
  have un: "\<forall>k \<in> fst ` set [(Str ''a'', Num 1)].
              unaliased committed_state k \<and> Map_get [(Str ''a'', Num 3)] k \<noteq> NoEntry"
    using u by (simp add: Map_get_def)
  from pt t p u reverse_patch_law_unaliased[OF pt t p un] show ?thesis by simp
qed

section \<open>Undoing and reversing the patch of a set or of a sequence\<close>

lemma reverse_set_loop_map_of:
  "map_of (foldl (reverse_set_key xs) acc ks)
     = (\<lambda>k. if k \<in> set ks then Some (Bool (k \<in> set xs)) else map_of acc k)"
  by (induction ks arbitrary: acc)
     (auto simp: reverse_set_key_def Set_has_def map_of_Map_set)

lemma reverse_set_loop_distinct:
  "distinct (map fst acc) \<Longrightarrow> distinct (map fst (foldl (reverse_set_key xs) acc ks))"
  by (induction ks arbitrary: acc) (auto simp: reverse_set_key_def distinct_Map_set)

lemma reverse_set_loop_keys:
  "fst ` set (foldl (reverse_set_key xs) acc ks) = fst ` set acc \<union> set ks"
  by (induction ks arbitrary: acc) (auto simp: reverse_set_key_def keys_Map_set_set)

lemma set_undo_set_entry:
  "set (undo_set_entry xs kv)
     = (if truthy (snd kv) then insert (fst kv) (set xs) else set xs - {fst kv})"
  by (auto simp: undo_set_entry_def Set_add_def Set_delete_def)

lemma undo_set_other:
  "k \<notin> fst ` set ps \<Longrightarrow> k \<in> set (foldl undo_set_entry xs ps) \<longleftrightarrow> k \<in> set xs"
  by (induction ps arbitrary: xs) (auto simp: set_undo_set_entry)

lemma undo_set_key:
  assumes "distinct (map fst ps)" "(k, b) \<in> set ps"
  shows "k \<in> set (foldl undo_set_entry xs ps) \<longleftrightarrow> truthy b"
  using assms
proof (induction ps arbitrary: xs)
  case Nil
  then show ?case by simp
next
  case (Cons kv ps)
  show ?case
  proof (cases "kv = (k, b)")
    case True
    with Cons.prems have "k \<notin> fst ` set ps" by auto
    then have "k \<in> set (foldl undo_set_entry (undo_set_entry xs kv) ps)
               \<longleftrightarrow> k \<in> set (undo_set_entry xs kv)"
      by (rule undo_set_other)
    with True show ?thesis by (simp add: set_undo_set_entry)
  next
    case False
    with Cons show ?thesis by auto
  qed
qed

text \<open>
  The reverse-patch law for the patch \<open>p\<close> of a set \<open>t\<close>: after
  \<^verbatim>\<open>r = createReversePatch(p); undoPatch(p); undoPatch(r)\<close> the set has the members it had
  before. Neither function resolves the keys of a set patch, so aliases play no part.
\<close>

theorem reverse_patch_law_set:
  assumes pt: "wm_get (patchToTarget s) (Ref p) = Ref t"
    and t: "objAt s t = Some (SetObj xs)" and p: "objAt s p = Some (MapObj ps)"
  shows "case reverse_roundtrip s (Ref p) of
           Inl e \<Rightarrow> False
         | Inr s' \<Rightarrow> (case objAt s' t of
                        Some (SetObj xs') \<Rightarrow> set xs' = set xs
                      | _ \<Rightarrow> False)"
proof -
  let ?n = "length (heap s)"
  let ?rp = "foldl (reverse_set_key xs) [] (map fst ps)"
  from t have tl: "t < ?n" and ht: "heap s ! t = SetObj xs"
    by (auto simp: objAt_def split: if_splits)
  from p have pl: "p < ?n" and hp: "heap s ! p = MapObj ps"
    by (auto simp: objAt_def split: if_splits)
  let ?s1 = "s\<lparr>heap := heap s @ [MapObj ?rp],
               patchToTarget := (patchToTarget s)(?n \<mapsto> Ref t)\<rparr>"
  have rev: "createReversePatch s (Ref p) = Inr (Ref ?n, ?s1)"
    using pt tl pl ht hp
    by (simp add: createReversePatch_def objAt_def createPatch_def alloc_def)
  let ?xs2 = "foldl undo_set_entry xs ps"
  let ?s2 = "store ?s1 t (SetObj ?xs2)"
  have pt1: "wm_get (patchToTarget ?s1) (Ref p) = Ref t"
    using pt pl by (simp add: wm_get_def)
  have u1: "undoPatch ?s1 (Ref p) = Inr ?s2"
    using pt1 tl pl ht hp by (simp add: undoPatch_def objAt_def nth_append)
  let ?xs3 = "foldl undo_set_entry ?xs2 ?rp"
  let ?s3 = "store ?s2 t (SetObj ?xs3)"
  have pt2: "wm_get (patchToTarget ?s2) (Ref ?n) = Ref t"
    by (simp add: wm_get_def store_def)
  have ht2: "objAt ?s2 t = Some (SetObj ?xs2)"
    using tl by (simp add: objAt_def store_def)
  have hn2: "objAt ?s2 ?n = Some (MapObj ?rp)"
    using tl by (simp add: objAt_def store_def nth_append)
  have u2: "undoPatch ?s2 (Ref ?n) = Inr ?s3"
    by (simp add: undoPatch_def pt2 ht2 hn2)
  have run: "reverse_roundtrip s (Ref p) = Inr ?s3"
    by (simp add: reverse_roundtrip_def rev u1 u2)
  have t3: "objAt ?s3 t = Some (SetObj ?xs3)"
    using tl by (simp add: objAt_def store_def)
  have keys: "fst ` set ?rp = fst ` set ps" by (simp add: reverse_set_loop_keys)
  have "k \<in> set ?xs3 \<longleftrightarrow> k \<in> set xs" for k
  proof (cases "k \<in> fst ` set ps")
    case False
    then show ?thesis by (simp add: undo_set_other keys)
  next
    case True
    then have "map_of ?rp k = Some (Bool (k \<in> set xs))"
      by (simp add: reverse_set_loop_map_of)
    then have mem: "(k, Bool (k \<in> set xs)) \<in> set ?rp" by (rule map_of_SomeD)
    have d: "distinct (map fst ?rp)" by (simp add: reverse_set_loop_distinct)
    from undo_set_key[OF d mem] show ?thesis by simp
  qed
  then have "set ?xs3 = set xs" by blast
  with run t3 show ?thesis by simp
qed

text \<open>
  The same for a sequence, whose patch and reverse patch are full copies: the sequence
  is, item by item, what it was before.
\<close>

theorem reverse_patch_law_array:
  assumes pt: "wm_get (patchToTarget s) (Ref p) = Ref t"
    and t: "objAt s t = Some (ArrayObj xs)" and p: "objAt s p = Some (ArrayObj ys)"
  shows "case reverse_roundtrip s (Ref p) of
           Inl e \<Rightarrow> False
         | Inr s' \<Rightarrow> objAt s' t = Some (ArrayObj xs)"
proof -
  let ?n = "length (heap s)"
  from t have tl: "t < ?n" and ht: "heap s ! t = ArrayObj xs"
    by (auto simp: objAt_def split: if_splits)
  from p have pl: "p < ?n" and hp: "heap s ! p = ArrayObj ys"
    by (auto simp: objAt_def split: if_splits)
  let ?s1 = "s\<lparr>heap := heap s @ [ArrayObj xs],
               patchToTarget := (patchToTarget s)(?n \<mapsto> Ref t)\<rparr>"
  have rev: "createReversePatch s (Ref p) = Inr (Ref ?n, ?s1)"
    using pt tl pl ht hp
    by (simp add: createReversePatch_def objAt_def createPatch_def alloc_def)
  let ?s2 = "store ?s1 t (ArrayObj ys)"
  have pt1: "wm_get (patchToTarget ?s1) (Ref p) = Ref t"
    using pt pl by (simp add: wm_get_def)
  have u1: "undoPatch ?s1 (Ref p) = Inr ?s2"
    using pt1 tl pl ht hp by (simp add: undoPatch_def objAt_def nth_append)
  let ?s3 = "store ?s2 t (ArrayObj xs)"
  have pt2: "wm_get (patchToTarget ?s2) (Ref ?n) = Ref t"
    by (simp add: wm_get_def store_def)
  have ht2: "objAt ?s2 t = Some (ArrayObj ys)"
    using tl by (simp add: objAt_def store_def)
  have hn2: "objAt ?s2 ?n = Some (ArrayObj xs)"
    using tl by (simp add: objAt_def store_def nth_append)
  have u2: "undoPatch ?s2 (Ref ?n) = Inr ?s3"
    by (simp add: undoPatch_def pt2 ht2 hn2)
  have run: "reverse_roundtrip s (Ref p) = Inr ?s3"
    by (simp add: reverse_roundtrip_def rev u1 u2)
  have "objAt ?s3 t = Some (ArrayObj xs)"
    using tl by (simp add: objAt_def store_def)
  with run show ?thesis by simp
qed

section \<open>The registry stays well-formed\<close>

text \<open>
  Every operation that returns keeps the registry well-formed: wrapping, reading through
  a view, and writing through a view.
\<close>

lemma registry_ok_ensureProxy:
  assumes "registry_ok s" "ensureProxy s v = Inr (p, s')"
  shows "registry_ok s'"
  using assms registry_ok_createRecordingProxy
  by (auto simp: ensureProxy_cases split: if_splits)

lemma registry_ok_proxify:
  assumes "registry_ok s" "proxify s v = Inr (p, s')"
  shows "registry_ok s'"
  using assms registry_ok_createRecordingProxy
  by (auto simp: proxify_def Let_def split: if_splits)

lemma registry_ok_cong:
  assumes "objectToProxy s' = objectToProxy s" "\<forall>w. ORIGINAL_of s' w = ORIGINAL_of s w"
    "length (heap s') = length (heap s)"
  shows "registry_ok s' = registry_ok s"
  using assms by (simp add: registry_ok_def registry_ok_at_def is_view_def tryGetProxy_def)

lemma registry_ok_DimmerMap_set:
  assumes ok: "registry_ok s" and run: "DimmerMap_set s m k v = Inr (r, s')"
  shows "registry_ok s'"
proof -
  from run obtain t d where m: "theDimmerMap s m = Some (t, d)"
    by (auto simp: DimmerMap_set_def split: option.splits)
  from run m obtain es where t: "theMap s t = Some es"
    by (auto simp: DimmerMap_set_def split: option.splits)
  from DimmerMap_set_effect[OF m t refl refl, of k v] obtain s2 where
    r2: "DimmerMap_set s m k v = Inr (Ref m, s2)"
    and f: "objectToProxy s2 = objectToProxy s" "\<forall>w. ORIGINAL_of s2 w = ORIGINAL_of s w"
      "length (heap s2) = length (heap s)"
    by blast
  from r2 run have "s' = s2" by simp
  with registry_ok_cong[OF f] ok show ?thesis by simp
qed

lemma registry_ok_DimmerMap_delete:
  assumes ok: "registry_ok s" and run: "DimmerMap_delete s m k = Inr (r, s')"
  shows "registry_ok s'"
proof -
  from run obtain t d where m: "theDimmerMap s m = Some (t, d)"
    by (auto simp: DimmerMap_delete_def split: option.splits)
  from run m obtain es where t: "theMap s t = Some es"
    by (auto simp: DimmerMap_delete_def split: option.splits)
  show ?thesis
  proof (cases "truthy (getKeyUsedByMap_of s es k)")
    case True
    from DimmerMap_delete_effect[OF m t refl True refl] obtain s2 where
      r2: "DimmerMap_delete s m k = Inr (Bool (Map_has es (getKeyUsedByMap_of s es k)), s2)"
      and f: "objectToProxy s2 = objectToProxy s" "\<forall>w. ORIGINAL_of s2 w = ORIGINAL_of s w"
        "length (heap s2) = length (heap s)"
      by blast
    from r2 run have "s' = s2" by simp
    with registry_ok_cong[OF f] ok show ?thesis by simp
  next
    case False
    with run m t ok show ?thesis
      by (simp add: DimmerMap_delete_def getKeyUsedByMap_of_def Let_def)
  qed
qed

lemma registry_ok_DimmerMap_get:
  assumes ok: "registry_ok s" and run: "DimmerMap_get s m k = Inr (r, s')"
  shows "registry_ok s'"
  using assms registry_ok_proxify
  by (auto simp: DimmerMap_get_def Let_def split: option.splits)

section \<open>What a commit pushes\<close>

lemma commit_loop_length:
  "length (fst (commit_loop s ms changes)) = length changes + length ms"
proof (induction ms arbitrary: s changes)
  case Nil
  then show ?case by simp
next
  case (Cons target rest)
  show ?case
    by (simp add: Cons.IH Let_def split: prod.splits)
qed

text \<open>
  The loop of \<^verbatim>\<open>commitPatches\<close> is \<open>commit_step\<close>, round after round.
\<close>

lemma commit_loop_Cons:
  "commit_loop s (target # rest) changes =
     (case commit_step s target of (x, s1) \<Rightarrow> commit_loop s1 rest (changes @ [x]))"
proof (cases "wm_get (objectToProxy s) target")
  case (Ref p)
  show ?thesis
  proof (cases "objAt s p")
    case None
    with Ref show ?thesis by (simp add: commit_step_def view_entry_def)
  next
    case (Some ob)
    then have "heap s ! p = ob" by (auto simp: objAt_def split: if_splits)
    with Ref Some show ?thesis
      by (cases ob) (simp_all add: commit_step_def view_entry_def commit_view_def alloc_def)
  qed
qed (simp_all add: commit_step_def view_entry_def)

lemma view_entry_SomeD:
  assumes "view_entry s tg = Some (p, t, d)"
  shows "wm_get (objectToProxy s) tg = Ref p" "p < length (heap s)"
    "heap s ! p = DimmerMap t d \<or> heap s ! p = DimmerSet t d"
  using assms
  by (auto simp: view_entry_def objAt_def split: val.splits option.splits obj.splits if_splits)

lemma view_entry_eq:
  "view_entry s tg =
     (case wm_get (objectToProxy s) tg of
        Ref p \<Rightarrow> if p < length (heap s) then
                   (case heap s ! p of DimmerMap t d \<Rightarrow> Some (p, t, d)
                    | DimmerSet t d \<Rightarrow> Some (p, t, d) | _ \<Rightarrow> None)
                 else None
      | _ \<Rightarrow> None)"
  by (simp add: view_entry_def objAt_def split: val.splits obj.splits)

lemma commit_step_registry [simp]:
  "objectToProxy (snd (commit_step s tg)) = objectToProxy s"
  by (simp add: commit_step_def store_def split: option.splits)

lemma commit_step_length:
  "length (heap (snd (commit_step s tg))) = length (heap s) + (if viewed s tg then 1 else 0)"
  by (simp add: commit_step_def store_def viewed_def split: option.splits)

lemma commit_step_emptied:
  assumes "a < length (heap s)"
  shows "emptied_view (heap (snd (commit_step s tg)) ! a) = emptied_view (heap s ! a)"
proof (cases "view_entry s tg")
  case None
  then show ?thesis by (simp add: commit_step_def)
next
  case (Some x)
  obtain p t d where x: "x = (p, t, d)" by (cases x)
  from view_entry_SomeD[OF Some[unfolded x]] assms show ?thesis
    by (cases "a = p") (auto simp: commit_step_def Some x store_def nth_append)
qed

lemma commit_step_other:
  assumes "a < length (heap s)" "map_option fst (view_entry s tg) \<noteq> Some a"
  shows "heap (snd (commit_step s tg)) ! a = heap s ! a"
  using assms
  by (auto simp: commit_step_def store_def nth_append split: option.splits)

lemma commit_step_view:
  assumes "view_entry s tg = Some (p, t, d)"
  shows "fst (commit_step s tg) = Ref (length (heap s))"
    "heap (snd (commit_step s tg)) ! p = emptied_view (heap s ! p)"
    "heap (snd (commit_step s tg)) ! length (heap s) = MapObj d"
    "patchToTarget (snd (commit_step s tg)) (length (heap s)) = Some (Ref t)"
    "objectToCurrentPatch (snd (commit_step s tg)) = objectToCurrentPatch s"
  using view_entry_SomeD[OF assms]
  by (auto simp: commit_step_def assms store_def nth_append)

lemma commit_step_noview:
  assumes "view_entry s tg = None"
  shows "commit_step s tg = (wm_get (objectToCurrentPatch s) tg,
           s\<lparr>objectToCurrentPatch := wm_delete (objectToCurrentPatch s) tg\<rparr>)"
  by (simp add: commit_step_def assms)

lemma commit_step_patchToTarget:
  assumes "a < length (heap s)"
  shows "patchToTarget (snd (commit_step s tg)) a = patchToTarget s a"
  using assms by (auto simp: commit_step_def store_def split: option.splits)

lemma commit_step_current:
  "wm_get (objectToCurrentPatch (snd (commit_step s tg))) x
     = (if x = tg \<and> \<not> viewed s tg then Undefined else wm_get (objectToCurrentPatch s) x)"
  by (auto simp: commit_step_def store_def viewed_def wm_get_def wm_delete_def
      split: option.splits val.splits)

text \<open>The view of another member, after one round.\<close>

lemma commit_step_view_entry:
  "view_entry (snd (commit_step s tg)) x =
     (case view_entry s x of
        None \<Rightarrow> None
      | Some (p, t, d) \<Rightarrow>
          Some (p, t, if map_option fst (view_entry s tg) = Some p then [] else d))"
proof (cases "view_entry s x")
  case None
  show ?thesis
  proof (cases "wm_get (objectToProxy s) x")
    case (Ref p)
    show ?thesis
    proof (cases "p < length (heap s)")
      case True
      from None Ref True have nv: "\<forall>t d. heap s ! p \<noteq> DimmerMap t d \<and> heap s ! p \<noteq> DimmerSet t d"
        by (auto simp: view_entry_eq split: obj.splits)
      from commit_step_emptied[OF True, of tg] nv
      have "\<forall>t d. heap (snd (commit_step s tg)) ! p \<noteq> DimmerMap t d
                  \<and> heap (snd (commit_step s tg)) ! p \<noteq> DimmerSet t d"
        by (cases "heap s ! p"; cases "heap (snd (commit_step s tg)) ! p") auto
      with None Ref show ?thesis
        by (auto simp: view_entry_eq[of "snd (commit_step s tg)"] split: obj.splits)
    next
      case False
      show ?thesis
      proof (cases "view_entry s tg")
        case None': None
        with None Ref False show ?thesis
          by (simp add: commit_step_def view_entry_eq[of "s\<lparr>objectToCurrentPatch := _\<rparr>"])
      next
        case (Some y)
        obtain q t d where y: "y = (q, t, d)" by (cases y)
        from view_entry_SomeD[OF Some[unfolded y]] have q: "q < length (heap s)" by simp
        from commit_step_length[of s tg] Some
        have len: "length (heap (snd (commit_step s tg))) = Suc (length (heap s))"
          by (simp add: viewed_def)
        from commit_step_view(3)[OF Some[unfolded y]] False len None Ref show ?thesis
          by (cases "p = length (heap s)")
            (auto simp: view_entry_eq[of "snd (commit_step s tg)"] split: obj.splits)
      qed
    qed
  qed (simp_all add: None view_entry_eq[of "snd (commit_step s tg)"])
next
  case (Some y)
  obtain p t d where y: "y = (p, t, d)" by (cases y)
  note e = view_entry_SomeD[OF Some[unfolded y]]
  have len: "p < length (heap (snd (commit_step s tg)))"
    using e(2) by (simp add: commit_step_length)
  show ?thesis
  proof (cases "map_option fst (view_entry s tg) = Some p")
    case True
    then obtain t' d' where v: "view_entry s tg = Some (p, t', d')" by auto
    from commit_step_view(2)[OF v] e(3)
    have "(heap (snd (commit_step s tg)) ! p = DimmerMap t [] \<and> heap s ! p = DimmerMap t d)
          \<or> (heap (snd (commit_step s tg)) ! p = DimmerSet t [] \<and> heap s ! p = DimmerSet t d)"
      by auto
    with e(1) len show ?thesis
      by (auto simp: Some y True view_entry_eq[of "snd (commit_step s tg)"])
  next
    case False
    from commit_step_other[OF e(2) False] e len
    have "view_entry (snd (commit_step s tg)) x = Some (p, t, d)"
      by (auto simp: view_entry_eq[of "snd (commit_step s tg)"])
    with False show ?thesis by (simp only: Some y option.case prod.case if_False)
  qed
qed

lemma commit_step_viewed [simp]: "viewed (snd (commit_step s tg)) x = viewed s x"
  by (simp add: viewed_def commit_step_view_entry split: option.splits)

lemma commit_step_view_addr [simp]:
  "map_option fst (view_entry (snd (commit_step s tg)) x) = map_option fst (view_entry s x)"
  by (simp add: commit_step_view_entry split: option.splits)

lemma commit_step_own_view [simp]: "own_view (snd (commit_step s tg)) x = own_view s x"
  by (simp add: own_view_def commit_step_view_entry split: option.splits)

lemma commit_loop_Cons':
  "commit_loop s (tg # rest) ch
     = commit_loop (snd (commit_step s tg)) rest (ch @ [fst (commit_step s tg)])"
  by (simp only: commit_loop_Cons split_beta)

text \<open>What the loop leaves of the state it started in.\<close>

lemma commit_loop_prefix:
  "\<exists>zs. fst (commit_loop s ms ch) = ch @ zs \<and> length zs = length ms"
proof (induction ms arbitrary: s ch)
  case Nil
  show ?case by simp
next
  case (Cons tg rest)
  from Cons.IH[of "snd (commit_step s tg)" "ch @ [fst (commit_step s tg)]"]
  obtain zs where "fst (commit_loop s (tg # rest) ch) = (ch @ [fst (commit_step s tg)]) @ zs"
    "length zs = length rest"
    by (auto simp only: commit_loop_Cons')
  then show ?case by (intro exI[of _ "fst (commit_step s tg) # zs"]) simp
qed

lemma commit_loop_nth_prefix:
  assumes "i < length ch"
  shows "fst (commit_loop s ms ch) ! i = ch ! i"
  using commit_loop_prefix[of s ms ch] assms by (auto simp: nth_append)

lemma commit_loop_heap_length:
  "length (heap (snd (commit_loop s ms ch))) = length (heap s) + length (filter (viewed s) ms)"
proof (induction ms arbitrary: s ch)
  case Nil
  show ?case by simp
next
  case (Cons tg rest)
  show ?case
    by (simp only: commit_loop_Cons' Cons.IH commit_step_length commit_step_viewed)
      (simp cong: filter_cong)
qed

lemma commit_loop_view_entry:
  "view_entry (snd (commit_loop s ms ch)) x =
     (case view_entry s x of
        None \<Rightarrow> None
      | Some (p, t, d) \<Rightarrow>
          Some (p, t, if \<exists>tg\<in>set ms. map_option fst (view_entry s tg) = Some p then [] else d))"
proof (induction ms arbitrary: s ch)
  case Nil
  show ?case by (simp split: option.splits)
next
  case (Cons tg rest)
  show ?case
    by (simp only: commit_loop_Cons' Cons.IH commit_step_view_addr)
      (auto simp: commit_step_view_entry split: option.splits)
qed

lemma commit_loop_other:
  assumes "a < length (heap s)" "\<forall>tg\<in>set ms. map_option fst (view_entry s tg) \<noteq> Some a"
  shows "heap (snd (commit_loop s ms ch)) ! a = heap s ! a"
  using assms
proof (induction ms arbitrary: s ch)
  case Nil
  show ?case by simp
next
  case (Cons tg rest)
  have a1: "a < length (heap (snd (commit_step s tg)))"
    using Cons.prems(1) by (simp add: commit_step_length)
  have "heap (snd (commit_loop s (tg # rest) ch)) ! a = heap (snd (commit_step s tg)) ! a"
    unfolding commit_loop_Cons' using Cons.prems(2) by (intro Cons.IH[OF a1]) simp
  also have "\<dots> = heap s ! a"
    using Cons.prems by (intro commit_step_other) simp_all
  finally show ?case .
qed

lemma commit_loop_patchToTarget:
  assumes "a < length (heap s)"
  shows "patchToTarget (snd (commit_loop s ms ch)) a = patchToTarget s a"
  using assms
proof (induction ms arbitrary: s ch)
  case Nil
  show ?case by simp
next
  case (Cons tg rest)
  have a1: "a < length (heap (snd (commit_step s tg)))"
    using Cons.prems(1) by (simp add: commit_step_length)
  show ?case
    unfolding commit_loop_Cons' by (simp only: Cons.IH[OF a1] commit_step_patchToTarget[OF Cons.prems])
qed

lemma commit_loop_current:
  "wm_get (objectToCurrentPatch (snd (commit_loop s ms ch))) x
     = (if x \<in> set ms \<and> \<not> viewed s x then Undefined else wm_get (objectToCurrentPatch s) x)"
proof (induction ms arbitrary: s ch)
  case Nil
  show ?case by simp
next
  case (Cons tg rest)
  show ?case
    by (simp only: commit_loop_Cons' Cons.IH commit_step_viewed commit_step_current) auto
qed

lemma commit_loop_append:
  "commit_loop s (xs @ ys) ch
     = commit_loop (snd (commit_loop s xs ch)) ys (fst (commit_loop s xs ch))"
proof (induction xs arbitrary: s ch)
  case Nil
  show ?case by simp
next
  case (Cons tg rest)
  show ?case by (simp only: append_Cons commit_loop_Cons' Cons.IH)
qed

lemma view_entry_same_view:
  assumes "view_entry s a = Some (p, t, d)" "view_entry s b = Some (p, t', d')"
  shows "t' = t" "d' = d"
  using view_entry_SomeD(3)[OF assms(1)] view_entry_SomeD(3)[OF assms(2)] by auto

text \<open>
  Members that are tracked by their own view, or by no view of a map or a set: what the
  loop pushes for the member at position \<open>i\<close>.
\<close>

lemma commit_loop_element:
  assumes dist: "distinct ms" and own: "\<forall>tg\<in>set ms. own_view s tg" and i: "i < length ms"
  shows "case view_entry s (ms ! i) of
           None \<Rightarrow>
             fst (commit_loop s ms ch) ! (length ch + i) = wm_get (objectToCurrentPatch s) (ms ! i)
             \<and> wm_get (objectToCurrentPatch (snd (commit_loop s ms ch))) (ms ! i) = Undefined
         | Some (p, t, d) \<Rightarrow>
             fst (commit_loop s ms ch) ! (length ch + i)
               = Ref (length (heap s) + length (filter (viewed s) (take i ms)))
             \<and> theMap (snd (commit_loop s ms ch))
                  (length (heap s) + length (filter (viewed s) (take i ms))) = Some d
             \<and> wm_get (patchToTarget (snd (commit_loop s ms ch)))
                  (Ref (length (heap s) + length (filter (viewed s) (take i ms)))) = ms ! i
             \<and> view_entry (snd (commit_loop s ms ch)) (ms ! i) = Some (p, t, [])"
proof -
  define tg where "tg = ms ! i"
  define pre where "pre = take i ms"
  define post where "post = drop (Suc i) ms"
  define s1 where "s1 = snd (commit_loop s pre ch)"
  define ch1 where "ch1 = fst (commit_loop s pre ch)"
  define s2 where "s2 = snd (commit_step s1 tg)"
  define x where "x = fst (commit_step s1 tg)"
  define n where "n = length (heap s) + length (filter (viewed s) pre)"
  have ms: "ms = pre @ tg # post"
    using i by (simp add: pre_def tg_def post_def id_take_nth_drop)
  have run: "commit_loop s ms ch = commit_loop s2 post (ch1 @ [x])"
    by (simp only: ms commit_loop_append commit_loop_Cons' s1_def ch1_def s2_def x_def)
  have len1: "length ch1 = length ch + i"
    using i by (simp add: ch1_def commit_loop_length pre_def)
  have out: "fst (commit_loop s ms ch) ! (length ch + i) = x"
    using commit_loop_nth_prefix[of "length ch + i" "ch1 @ [x]" s2 post]
    by (simp add: run len1 nth_append)
  have notin: "tg \<notin> set pre" "tg \<notin> set post"
    using dist ms by (metis distinct_append distinct.simps(2) disjoint_iff list.set_intros(1),
        metis distinct_append distinct.simps(2))
  have heap1: "length (heap s1) = n"
    by (simp add: s1_def n_def commit_loop_heap_length)
  have cur1: "wm_get (objectToCurrentPatch s1) tg = wm_get (objectToCurrentPatch s) tg"
    using notin(1) by (simp add: s1_def commit_loop_current)
  show ?thesis
  proof (cases "view_entry s tg")
    case None
    have v1: "view_entry s1 tg = None"
      by (simp add: s1_def commit_loop_view_entry None)
    have x: "x = wm_get (objectToCurrentPatch s) tg"
      by (simp add: x_def commit_step_noview[OF v1] cur1)
    have "wm_get (objectToCurrentPatch s2) tg = Undefined"
      using v1 by (simp add: s2_def commit_step_current viewed_def)
    then have "wm_get (objectToCurrentPatch (snd (commit_loop s ms ch))) tg = Undefined"
      by (simp add: run commit_loop_current)
    with x out None show ?thesis by (simp add: tg_def[symmetric])
  next
    case (Some y)
    obtain p t d where y: "y = (p, t, d)" by (cases y)
    note v = Some[unfolded y]
    have tgt: "tg = Ref t"
      using own v ms by (auto simp: own_view_def)
    have fresh: "\<not> (\<exists>tg'\<in>set pre. map_option fst (view_entry s tg') = Some p)"
    proof
      assume "\<exists>tg'\<in>set pre. map_option fst (view_entry s tg') = Some p"
      then obtain tg' t' d' where m: "tg' \<in> set pre" and v': "view_entry s tg' = Some (p, t', d')"
        by auto
      from m ms own have "own_view s tg'" by auto
      with v' have "tg' = Ref t'" by (simp add: own_view_def)
      with view_entry_same_view(1)[OF v v'] tgt have "tg' = tg" by simp
      with m notin(1) show False by simp
    qed
    have v1: "view_entry s1 tg = Some (p, t, d)"
      using fresh by (simp add: s1_def commit_loop_view_entry v)
    have x: "x = Ref n"
      by (simp add: x_def commit_step_view(1)[OF v1] heap1)
    have h2: "heap s2 ! n = MapObj d" "patchToTarget s2 n = Some (Ref t)"
      using commit_step_view(3,4)[OF v1] by (simp_all add: s2_def heap1)
    have n2: "n < length (heap s2)"
      using v1 by (simp add: s2_def commit_step_length heap1 viewed_def)
    have noview: "\<forall>tg'\<in>set post. map_option fst (view_entry s2 tg') \<noteq> Some n"
    proof
      fix tg' assume "tg' \<in> set post"
      show "map_option fst (view_entry s2 tg') \<noteq> Some n"
      proof
        assume "map_option fst (view_entry s2 tg') = Some n"
        then obtain t' d' where "view_entry s2 tg' = Some (n, t', d')" by auto
        from view_entry_SomeD(3)[OF this] h2(1) show False by simp
      qed
    qed
    have hf: "heap (snd (commit_loop s ms ch)) ! n = MapObj d"
      by (simp add: run commit_loop_other[OF n2 noview] h2)
    have nf: "n < length (heap (snd (commit_loop s ms ch)))"
      using n2 by (simp add: run commit_loop_heap_length)
    from hf nf have m: "theMap (snd (commit_loop s ms ch)) n = Some d"
      by (simp add: theMap_def objAt_def)
    have pt: "wm_get (patchToTarget (snd (commit_loop s ms ch))) (Ref n) = tg"
      by (simp add: run commit_loop_patchToTarget[OF n2] h2 wm_get_def tgt)
    have v2: "view_entry s2 tg = Some (p, t, [])"
      by (simp add: s2_def commit_step_view_entry v1)
    have vf: "view_entry (snd (commit_loop s ms ch)) tg = Some (p, t, [])"
      by (simp add: run commit_loop_view_entry v2)
    from out x m pt vf show ?thesis
      by (simp add: tg_def[symmetric] v n_def pre_def)
  qed
qed

text \<open>
  What \<^verbatim>\<open>commitPatches\<close> returns and leaves, when \<^verbatim>\<open>modified\<close> has no member twice and
  every member has its own view or none of a map or a set. The list has one element for
  each member, in the order of \<^verbatim>\<open>modified\<close>. For a member with a view, the element is a
  new object, allocated after those of the members before it; it is a map holding the
  entries the view had recorded, \<^verbatim>\<open>patchToTarget\<close> links it to the member, and the view is
  left with an empty open patch. For a member without such a view the element is what
  \<^verbatim>\<open>objectToCurrentPatch\<close> holds for it, and that entry is removed.
\<close>

theorem commitPatches_elements:
  assumes "distinct (modified s)" and "\<forall>tg\<in>set (modified s). own_view s tg"
    and "i < length (modified s)"
  shows "length (fst (commitPatches s)) = length (modified s)
         \<and> (case view_entry s (modified s ! i) of
               None \<Rightarrow>
                 fst (commitPatches s) ! i = wm_get (objectToCurrentPatch s) (modified s ! i)
                 \<and> wm_get (objectToCurrentPatch (snd (commitPatches s))) (modified s ! i)
                     = Undefined
             | Some (p, t, d) \<Rightarrow>
                 fst (commitPatches s) ! i
                   = Ref (length (heap s) + length (filter (viewed s) (take i (modified s))))
                 \<and> theMap (snd (commitPatches s))
                      (length (heap s) + length (filter (viewed s) (take i (modified s))))
                     = Some d
                 \<and> wm_get (patchToTarget (snd (commitPatches s))) (fst (commitPatches s) ! i)
                     = modified s ! i
                 \<and> view_entry (snd (commitPatches s)) (modified s ! i) = Some (p, t, []))"
proof -
  have "length (fst (commitPatches s)) = length (modified s)"
    by (simp add: commitPatches_def commit_loop_length)
  moreover from commit_loop_element[OF assms, of "[]"]
  have "case view_entry s (modified s ! i) of
               None \<Rightarrow>
                 fst (commitPatches s) ! i = wm_get (objectToCurrentPatch s) (modified s ! i)
                 \<and> wm_get (objectToCurrentPatch (snd (commitPatches s))) (modified s ! i)
                     = Undefined
             | Some (p, t, d) \<Rightarrow>
                 fst (commitPatches s) ! i
                   = Ref (length (heap s) + length (filter (viewed s) (take i (modified s))))
                 \<and> theMap (snd (commitPatches s))
                      (length (heap s) + length (filter (viewed s) (take i (modified s))))
                     = Some d
                 \<and> wm_get (patchToTarget (snd (commitPatches s))) (fst (commitPatches s) ! i)
                     = modified s ! i
                 \<and> view_entry (snd (commitPatches s)) (modified s ! i) = Some (p, t, [])"
    by (auto simp: commitPatches_def split: option.splits)
  ultimately show ?thesis ..
qed

text \<open>
  The theorem at two maps and a record, written to in the order second map, record, first
  map: the patches of the maps are the new objects at addresses 7 and 8, the patch of the
  record is its open patch at address 6.
\<close>

lemmas commit_defs = three_modified_def view_entry_def viewed_def own_view_def wm_get_def
  objAt_def

theorem commitPatches_elements_witness:
  "distinct (modified three_modified)
   \<and> (\<forall>tg\<in>set (modified three_modified). own_view three_modified tg)
   \<and> fst (commitPatches three_modified) = [Ref 7, Ref 6, Ref 8]
   \<and> theMap (snd (commitPatches three_modified)) 7 = Some [(Str ''b'', NoEntry)]
   \<and> wm_get (patchToTarget (snd (commitPatches three_modified))) (Ref 7) = Ref 1
   \<and> view_entry (snd (commitPatches three_modified)) (Ref 1) = Some (4, 1, [])
   \<and> wm_get (objectToCurrentPatch (snd (commitPatches three_modified))) (Ref 2) = Undefined
   \<and> theMap (snd (commitPatches three_modified)) 8 = Some [(Str ''a'', NoEntry)]
   \<and> wm_get (patchToTarget (snd (commitPatches three_modified))) (Ref 8) = Ref 0
   \<and> view_entry (snd (commitPatches three_modified)) (Ref 0) = Some (3, 0, [])"
proof -
  have d: "distinct (modified three_modified)" by (simp add: three_modified_def)
  have o: "\<forall>tg\<in>set (modified three_modified). own_view three_modified tg"
    by (simp add: commit_defs)
  have l: "(0::nat) < length (modified three_modified)" "(1::nat) < length (modified three_modified)"
    "(2::nat) < length (modified three_modified)"
    by (simp_all add: three_modified_def)
  have v: "view_entry three_modified (Ref 1) = Some (4, 1, [(Str ''b'', NoEntry)])"
    "view_entry three_modified (Ref 2) = None"
    "view_entry three_modified (Ref 0) = Some (3, 0, [(Str ''a'', NoEntry)])"
    by (simp_all add: commit_defs)
  have m: "modified three_modified = [Ref 1, Ref 2, Ref 0]" "length (heap three_modified) = 7"
    "wm_get (objectToCurrentPatch three_modified) (Ref 2) = Ref 6"
    by (simp_all add: three_modified_def wm_get_def)
  have vw: "viewed three_modified (Ref 1)" "\<not> viewed three_modified (Ref 2)"
    by (simp_all add: viewed_def v del: One_nat_def)
  note e0 = commitPatches_elements[OF d o l(1)]
  note e1 = commitPatches_elements[OF d o l(2)]
  note e2 = commitPatches_elements[OF d o l(3)]
  have len: "length (fst (commitPatches three_modified)) = 3"
    using e0[THEN conjunct1] by (simp add: m)
  have c0: "fst (commitPatches three_modified) ! 0 = Ref 7"
    "theMap (snd (commitPatches three_modified)) 7 = Some [(Str ''b'', NoEntry)]"
    "wm_get (patchToTarget (snd (commitPatches three_modified))) (Ref 7) = Ref 1"
    "view_entry (snd (commitPatches three_modified)) (Ref 1) = Some (4, 1, [])"
    using e0[THEN conjunct2] by (auto simp: m v simp del: One_nat_def)
  have c1: "fst (commitPatches three_modified) ! 1 = Ref 6"
    "wm_get (objectToCurrentPatch (snd (commitPatches three_modified))) (Ref 2) = Undefined"
    using e1[THEN conjunct2] by (auto simp: m v simp del: One_nat_def)
  have c2: "fst (commitPatches three_modified) ! 2 = Ref 8"
    "theMap (snd (commitPatches three_modified)) 8 = Some [(Str ''a'', NoEntry)]"
    "wm_get (patchToTarget (snd (commitPatches three_modified))) (Ref 8) = Ref 0"
    "view_entry (snd (commitPatches three_modified)) (Ref 0) = Some (3, 0, [])"
    using e2[THEN conjunct2] by (auto simp: m v vw simp del: One_nat_def)
  have list: "fst (commitPatches three_modified) = [Ref 7, Ref 6, Ref 8]"
    using len c0(1) c1(1) c2(1)
    by (cases "fst (commitPatches three_modified)" rule: list.exhaust)
      (auto simp: length_Suc_conv numeral_3_eq_3 numeral_2_eq_2)
  from d o list c0(2,3,4) c1(2) c2(2,3,4) show ?thesis by (intro conjI)
qed

text \<open>
  The state of the next run is what \<^verbatim>\<open>createRecordingProxy(m); doNotTrack(m)\<close> leaves, and
  \<^verbatim>\<open>view.set('a', 1)\<close> in it records the write in the view and puts the map in
  \<^verbatim>\<open>modified\<close>.
\<close>

lemma opted_out_state_reached:
  "and_then (createRecordingProxy (raw_state [MapObj []]) (Ref 0)) (\<lambda>view s. doNotTrack s (Ref 0))
     = Inr (Ref 0, opted_out_state)"
  by (simp add: run_defs doNotTrack_def opted_out_state_def fun_upd_twist)

lemma opted_out_written_reached:
  "write_key (Str ''a'') (Num 1) (Ref 1) opted_out_state = Inr (Ref 1, opted_out_written)"
  by (simp add: run_defs write_key_def opted_out_state_def opted_out_written_def)

text \<open>
  C8. \<^verbatim>\<open>commitPatches\<close> always returns a list, with one element for each member of
  \<^verbatim>\<open>modified\<close>, and the empty list when \<^verbatim>\<open>modified\<close> is empty. The element is not always a
  patch. For the map \<open>m\<close> that \<^verbatim>\<open>doNotTrack(m)\<close> registered for itself while its view was in
  use, a write through the view puts \<open>m\<close> in \<^verbatim>\<open>modified\<close>; \<^verbatim>\<open>commitPatches\<close> finds no view
  of a map for \<open>m\<close>, reads \<^verbatim>\<open>objectToCurrentPatch.get(m)!\<close>, which holds nothing, and
  pushes \<^verbatim>\<open>undefined\<close>: the batch of the scope is \<^verbatim>\<open>[undefined]\<close>, and the write that the
  view recorded stays in the view. (For members that have their own view, or none, the
  elements are the patches: \<open>commitPatches_elements\<close>.)
\<close>

theorem commitPatches_opted_out:
  "length (fst (commitPatches s)) = length (modified s)
   \<and> commitPatches (s\<lparr>modified := []\<rparr>) = ([], s\<lparr>modified := []\<rparr>)
   \<and> and_then (createRecordingProxy (raw_state [MapObj []]) (Ref 0))
         (\<lambda>view s. doNotTrack s (Ref 0)) = Inr (Ref 0, opted_out_state)
   \<and> tryGetProxy opted_out_state (Ref 1) = Ref 1
   \<and> write_key (Str ''a'') (Num 1) (Ref 1) opted_out_state = Inr (Ref 1, opted_out_written)
   \<and> modified opted_out_written = [Ref 0]
   \<and> commitPatches opted_out_written = ([Undefined], opted_out_written)
   \<and> recordPatches (write_key (Str ''a'') (Num 1)) opted_out_state (Ref 1)
       = Inr ([Undefined], opted_out_written\<lparr>modified := []\<rparr>)"
proof -
  have 1: "length (fst (commitPatches s)) = length (modified s)"
    by (simp add: commitPatches_def commit_loop_length)
  have 2: "commitPatches (s\<lparr>modified := []\<rparr>) = ([], s\<lparr>modified := []\<rparr>)"
    by (simp add: commitPatches_def)
  have 3: "tryGetProxy opted_out_state (Ref 1) = Ref 1"
    "modified opted_out_written = [Ref 0]"
    "commitPatches opted_out_written = ([Undefined], opted_out_written)"
    "recordPatches (write_key (Str ''a'') (Num 1)) opted_out_state (Ref 1)
       = Inr ([Undefined], opted_out_written\<lparr>modified := []\<rparr>)"
    by (simp_all add: run_defs write_key_def opted_out_state_def opted_out_written_def)
  from 1 2 opted_out_state_reached 3(1) opted_out_written_reached 3(2,3,4)
  show ?thesis by (intro conjI)
qed

section \<open>Opting out of tracking\<close>

lemma ORIGINAL_of_Ref:
  "ORIGINAL_of s (Ref b) = (if b < length (heap s) then target_of (heap s ! b) else Undefined)"
  by (cases "heap s ! b") (simp_all add: ORIGINAL_of_def objAt_def)

lemma same_views_refl [simp]: "same_views s s"
  by (simp add: same_views_def)

lemma same_views_trans: "same_views s s1 \<Longrightarrow> same_views s1 s2 \<Longrightarrow> same_views s s2"
  by (simp add: same_views_def)

lemma same_views_store:
  assumes "b < length (heap s) \<longrightarrow> target_of ob = target_of (heap s ! b)"
  shows "same_views s (store s b ob)"
  using assms
  by (cases "b < length (heap s)")
    (auto simp: same_views_def ORIGINAL_of_Ref store_def nth_list_update)

lemma same_views_alloc:
  assumes "target_of ob = Undefined"
  shows "same_views s (s\<lparr>heap := heap s @ [ob]\<rparr>)"
  using assms by (simp add: same_views_def ORIGINAL_of_Ref nth_append)

lemma same_views_fields [simp]:
  "same_views s (s\<lparr>modified := x\<rparr>)"
  "same_views s (s\<lparr>patchToTarget := y\<rparr>)"
  "same_views s (s\<lparr>objectToCurrentPatch := z\<rparr>)"
  by (simp_all add: same_views_def ORIGINAL_of_Ref)

lemma keeps_same_views:
  assumes "a < length (heap s)" "tryGetProxy s (Ref a) = Ref a" "same_views s s'"
  shows "keeps a s s'"
  using assms by (simp add: keeps_def same_views_def tryGetProxy_def)

lemma keeps_trans:
  assumes "keeps a s s1" "keeps a s1 s2"
  shows "keeps a s s2"
  using assms by (simp add: keeps_def)

lemma keeps_refl:
  assumes "a < length (heap s)" "tryGetProxy s (Ref a) = Ref a"
  shows "keeps a s s"
  using assms by (simp add: keeps_def)

lemma keeps_pre:
  assumes "keeps a s s'"
  shows "a < length (heap s')" "tryGetProxy s' (Ref a) = Ref a"
  using assms by (simp_all add: keeps_def)

text \<open>The operations of the registry.\<close>

lemma createRecordingProxy_keeps:
  assumes pre: "a < length (heap s)" "tryGetProxy s (Ref a) = Ref a"
    and v: "v \<noteq> Ref a" and run: "createRecordingProxy s v = Inr (r, s')"
  shows "keeps a s s'"
proof -
  from run obtain t where t: "v = Ref t"
    by (cases v) (auto simp: createRecordingProxy_def split: sum.splits bool.splits)
  from run t obtain ob where ob: "objAt s t = Some ob"
    by (auto simp: createRecordingProxy_def split: sum.splits bool.splits option.splits)
  from run t ob obtain view where s': "s' = s\<lparr>heap := heap s @ [view],
        objectToProxy := (objectToProxy s)(t \<mapsto> Ref (length (heap s)),
                                           length (heap s) \<mapsto> Ref (length (heap s)))\<rparr>"
    and view: "target_of view = Ref t"
    by (cases ob)
      (auto simp: createRecordingProxy_def alloc_def Let_def split: sum.splits bool.splits)
  from t v have ta: "t \<noteq> a" by simp
  show ?thesis
    using pre ta view
    by (auto simp: keeps_def s' tryGetProxy_def wm_get_def ORIGINAL_of_Ref nth_append
        split: if_splits option.splits)
qed

lemma doNotTrack_keeps:
  assumes pre: "a < length (heap s)" "tryGetProxy s (Ref a) = Ref a"
    and run: "doNotTrack s v = Inr (r, s')"
  shows "keeps a s s'"
  using assms
  by (cases v)
    (auto simp: keeps_def doNotTrack_def wm_set_def tryGetProxy_def wm_get_def ORIGINAL_of_Ref
      split: if_splits option.splits)

lemma ensureProxy_keeps:
  assumes pre: "a < length (heap s)" "tryGetProxy s (Ref a) = Ref a"
    and run: "ensureProxy s v = Inr (r, s')"
  shows "keeps a s s'"
proof (cases "truthy (tryGetProxy s v)")
  case True
  with run have "s' = s" by (simp add: ensureProxy_def Let_def)
  with pre show ?thesis by (simp add: keeps_refl)
next
  case False
  with pre have "v \<noteq> Ref a" by auto
  moreover from False run have "createRecordingProxy s v = Inr (r, s')"
    by (simp add: ensureProxy_def Let_def)
  ultimately show ?thesis using pre by (intro createRecordingProxy_keeps)
qed

lemma proxify_keeps:
  assumes pre: "a < length (heap s)" "tryGetProxy s (Ref a) = Ref a"
    and run: "proxify s v = Inr (r, s')"
  shows "keeps a s s'"
proof (cases "truthy (tryGetProxy s v)")
  case True
  with run have "s' = s" by (simp add: proxify_def tryGetProxy_def Let_def)
  with pre show ?thesis by (simp add: keeps_refl)
next
  case False
  with pre have va: "v \<noteq> Ref a" by auto
  show ?thesis
  proof (cases "typeof_not_object v \<or> \<not> truthy v")
    case True
    with False run have "s' = s" by (simp add: proxify_def tryGetProxy_def Let_def)
    with pre show ?thesis by (simp add: keeps_refl)
  next
    case nc: False
    with False run have "createRecordingProxy s v = Inr (r, s')"
      by (simp add: proxify_def tryGetProxy_def Let_def)
    with va pre show ?thesis by (intro createRecordingProxy_keeps)
  qed
qed

text \<open>The operations of a view, of a commit and of the history leave the views as they are.\<close>

lemma same_views_write:
  assumes m: "theDimmerMap s m = Some (t, d)" and t: "theMap s t = Some es"
  shows "same_views s (store (store (s\<lparr>modified := ms\<rparr>) m (DimmerMap t d')) t (MapObj es'))"
    "same_views s (store s t (MapObj es'))"
proof -
  note md = theDimmerMap_SomeD[OF m] and td = theMap_SomeD[OF t]
  have 1: "same_views s (s\<lparr>modified := ms\<rparr>)" by simp
  have 2: "same_views (s\<lparr>modified := ms\<rparr>) (store (s\<lparr>modified := ms\<rparr>) m (DimmerMap t d'))"
    using md by (intro same_views_store) simp
  have 3: "same_views (store (s\<lparr>modified := ms\<rparr>) m (DimmerMap t d'))
             (store (store (s\<lparr>modified := ms\<rparr>) m (DimmerMap t d')) t (MapObj es'))"
    using md td by (intro same_views_store) (auto simp: store_def nth_list_update)
  from 1 2 have "same_views s (store (s\<lparr>modified := ms\<rparr>) m (DimmerMap t d'))"
    by (rule same_views_trans)
  from this 3
  show "same_views s (store (store (s\<lparr>modified := ms\<rparr>) m (DimmerMap t d')) t (MapObj es'))"
    by (rule same_views_trans)
  show "same_views s (store s t (MapObj es'))"
    using td by (intro same_views_store) simp
qed

lemma DimmerMap_set_same_views:
  assumes "DimmerMap_set s m k v = Inr (r, s')"
  shows "same_views s s'"
proof -
  from assms obtain t d where m: "theDimmerMap s m = Some (t, d)"
    by (auto simp: DimmerMap_set_def split: option.splits)
  from assms m obtain es where t: "theMap s t = Some es"
    by (auto simp: DimmerMap_set_def split: option.splits)
  from assms show ?thesis
    by (auto simp: DimmerMap_set_def m t Let_def same_views_write[OF m t] split: if_splits)
qed

lemma DimmerMap_delete_same_views:
  assumes "DimmerMap_delete s m k = Inr (r, s')"
  shows "same_views s s'"
proof -
  from assms obtain t d where m: "theDimmerMap s m = Some (t, d)"
    by (auto simp: DimmerMap_delete_def split: option.splits)
  from assms m obtain es where t: "theMap s t = Some es"
    by (auto simp: DimmerMap_delete_def split: option.splits)
  from assms show ?thesis
    by (auto simp: DimmerMap_delete_def m t Let_def same_views_write[OF m t] split: if_splits)
qed

lemma DimmerMap_clear_same_views:
  assumes "DimmerMap_clear s m = Inr (r, s')"
  shows "same_views s s'"
proof -
  from assms obtain t d where m: "theDimmerMap s m = Some (t, d)"
    by (auto simp: DimmerMap_clear_def split: option.splits)
  from assms m obtain es where t: "theMap s t = Some es"
    by (auto simp: DimmerMap_clear_def split: option.splits)
  from assms show ?thesis
    by (auto simp: DimmerMap_clear_def m t Let_def same_views_write[OF m t]
        split: if_splits prod.splits)
qed

lemma target_of_emptied [simp]: "target_of (emptied_view ob) = target_of ob"
  by (cases ob) simp_all

lemma commit_view_same_views:
  assumes "this < length (heap s)" "target_of ob = target_of (heap s ! this)"
  shows "same_views s (snd (commit_view s this t d ob))"
proof -
  let ?s1 = "s\<lparr>heap := heap s @ [MapObj d]\<rparr>"
  let ?s2 = "?s1\<lparr>patchToTarget := (patchToTarget ?s1)(length (heap s) \<mapsto> Ref t)\<rparr>"
  have 1: "same_views s ?s1" by (intro same_views_alloc) simp
  have 2: "same_views ?s1 ?s2" by (simp add: same_views_def ORIGINAL_of_Ref)
  have 3: "same_views ?s2 (store ?s2 this ob)"
    using assms by (intro same_views_store) (simp add: nth_append)
  have 4: "snd (commit_view s this t d ob) = store ?s2 this ob"
    by (simp add: commit_view_def alloc_def)
  from 1 2 have "same_views s ?s2" by (rule same_views_trans)
  from this 3 have "same_views s (store ?s2 this ob)" by (rule same_views_trans)
  with 4 show ?thesis by simp
qed

lemma DimmerMap_commitDelta_same_views:
  assumes "DimmerMap_commitDelta s m = Inr (r, s')"
  shows "same_views s s'"
proof -
  from assms obtain t d where m: "theDimmerMap s m = Some (t, d)"
    by (auto simp: DimmerMap_commitDelta_def split: option.splits)
  from theDimmerMap_SomeD[OF m]
  have "same_views s (snd (commit_view s m t d (DimmerMap t [])))"
    by (intro commit_view_same_views) simp_all
  with assms m show ?thesis by (auto simp: DimmerMap_commitDelta_def)
qed

lemma commit_step_same_views: "same_views s (snd (commit_step s tg))"
proof (cases "view_entry s tg")
  case None
  then show ?thesis by (simp add: commit_step_def)
next
  case (Some y)
  obtain p t d where y: "y = (p, t, d)" by (cases y)
  from view_entry_SomeD[OF Some[unfolded y]]
  have "same_views s (snd (commit_view s p t d (emptied_view (heap s ! p))))"
    by (intro commit_view_same_views) simp_all
  then show ?thesis by (simp add: commit_step_def Some y commit_view_def alloc_def)
qed

lemma commit_loop_same_views: "same_views s (snd (commit_loop s ms ch))"
proof (induction ms arbitrary: s ch)
  case Nil
  show ?case by simp
next
  case (Cons tg rest)
  from commit_step_same_views[of s tg] Cons.IH[of "snd (commit_step s tg)"]
  show ?case by (simp only: commit_loop_Cons') (rule same_views_trans)
qed

lemma commitPatches_same_views: "same_views s (snd (commitPatches s))"
  by (simp add: commitPatches_def commit_loop_same_views)

lemma createPatch_same_views:
  assumes "target_of ob = Undefined"
  shows "same_views s (snd (createPatch s ob tg))"
proof -
  have "same_views s (s\<lparr>heap := heap s @ [ob]\<rparr>)" using assms by (rule same_views_alloc)
  moreover have "same_views (s\<lparr>heap := heap s @ [ob]\<rparr>) (snd (createPatch s ob tg))"
    by (simp add: createPatch_def alloc_def same_views_def ORIGINAL_of_Ref)
  ultimately show ?thesis by (rule same_views_trans)
qed

lemma undoPatch_cases:
  assumes "undoPatch s p = Inr s'"
  shows "s' = s \<or> (\<exists>t ob'. t < length (heap s) \<and> target_of ob' = target_of (heap s ! t)
                      \<and> s' = store s t ob')"
proof (cases "wm_get (patchToTarget s) p")
  case (Ref t)
  show ?thesis
  proof (cases "objAt s t")
    case None
    with assms Ref show ?thesis by (simp add: undoPatch_def)
  next
    case (Some ob)
    then have t: "t < length (heap s)" "heap s ! t = ob"
      by (auto simp: objAt_def split: if_splits)
    define po where "po = (case p of Ref q \<Rightarrow> objAt s q | _ \<Rightarrow> None)"
    have u: "undoPatch s p =
       (case (Some ob, po) of
             (Some (MapObj es), Some (MapObj ps)) \<Rightarrow>
               Inr (store s t (MapObj (foldl (undo_map_entry s) es ps)))
           | (Some (SetObj xs), Some (MapObj ps)) \<Rightarrow>
               Inr (store s t (SetObj (foldl undo_set_entry xs ps)))
           | (Some (ArrayObj xs), Some (ArrayObj ys)) \<Rightarrow>
               Inr (store s t (ArrayObj ys))
           | (Some (PlainObj props), Some (MapObj ps)) \<Rightarrow>
               Inr (store s t (PlainObj (foldl undo_object_entry props ps)))
           | _ \<Rightarrow> Inl NotModelled)"
      by (simp add: undoPatch_def Ref Some po_def)
    have "\<exists>ob'. s' = store s t ob' \<and> target_of ob' = target_of ob"
    proof (cases po)
      case None
      with assms u show ?thesis by (cases ob) simp_all
    next
      case (Some ob2)
      with assms u show ?thesis by (cases ob; cases ob2) auto
    qed
    with t show ?thesis by auto
  qed
next
  case Undefined
  with assms show ?thesis
    by (simp add: undoPatch_def split: option.splits obj.splits list.splits)
next
  case Null
  with assms show ?thesis
    by (simp add: undoPatch_def split: option.splits obj.splits list.splits)
next
  case (Bool x)
  with assms show ?thesis
    by (simp add: undoPatch_def split: option.splits obj.splits list.splits)
next
  case (Num x)
  with assms show ?thesis
    by (simp add: undoPatch_def split: option.splits obj.splits list.splits)
next
  case (Str x)
  with assms show ?thesis
    by (simp add: undoPatch_def split: option.splits obj.splits list.splits)
next
  case NoEntry
  with assms show ?thesis
    by (simp add: undoPatch_def split: option.splits obj.splits list.splits)
qed

lemma undoPatch_same_views:
  assumes "undoPatch s p = Inr s'"
  shows "same_views s s'"
  using undoPatch_cases[OF assms] by (auto intro: same_views_store)

lemma createPatch_result:
  assumes "createPatch s ob tg = (r, s')" "target_of ob = Undefined"
  shows "same_views s s'"
  using createPatch_same_views[OF assms(2), of s tg] assms(1) by simp

lemma createReversePatch_same_views:
  assumes "createReversePatch s p = Inr (r, s')"
  shows "same_views s s'"
proof (cases "wm_get (patchToTarget s) p")
  case (Ref t)
  show ?thesis
  proof (cases "objAt s t")
    case None
    with assms Ref show ?thesis by (simp add: createReversePatch_def)
  next
    case (Some ob)
    define po where "po = (case p of Ref q \<Rightarrow> objAt s q | _ \<Rightarrow> None)"
    have u: "createReversePatch s p =
       (case (Some ob, po) of
             (Some (MapObj es), Some (MapObj ps)) \<Rightarrow>
               Inr (createPatch s (MapObj (foldl (reverse_map_key es) [] (map fst ps))) (Ref t))
           | (Some (SetObj xs), Some (MapObj ps)) \<Rightarrow>
               Inr (createPatch s (MapObj (foldl (reverse_set_key xs) [] (map fst ps))) (Ref t))
           | (Some (ArrayObj xs), _) \<Rightarrow>
               Inr (createPatch s (ArrayObj xs) (Ref t))
           | (Some (PlainObj props), Some (MapObj ps)) \<Rightarrow>
               Inr (createPatch s (MapObj (foldl (reverse_object_key props) [] (map fst ps)))
                      (Ref t))
           | _ \<Rightarrow> Inl NotModelled)"
      by (simp add: createReversePatch_def Ref Some po_def)
    have "\<exists>ob' tg. createPatch s ob' tg = (r, s') \<and> target_of ob' = Undefined"
    proof (cases po)
      case None
      with assms u show ?thesis by (cases ob) auto
    next
      case (Some ob2)
      with assms u show ?thesis by (cases ob; cases ob2) auto
    qed
    then show ?thesis by (auto intro: createPatch_result)
  qed
next
  case Undefined
  with assms show ?thesis
    by (auto simp: createReversePatch_def intro: createPatch_result
        split: option.splits obj.splits list.splits)
next
  case Null
  with assms show ?thesis
    by (auto simp: createReversePatch_def intro: createPatch_result
        split: option.splits obj.splits list.splits)
next
  case (Bool x)
  with assms show ?thesis
    by (auto simp: createReversePatch_def intro: createPatch_result
        split: option.splits obj.splits list.splits)
next
  case (Num x)
  with assms show ?thesis
    by (auto simp: createReversePatch_def intro: createPatch_result
        split: option.splits obj.splits list.splits)
next
  case (Str x)
  with assms show ?thesis
    by (auto simp: createReversePatch_def intro: createPatch_result
        split: option.splits obj.splits list.splits)
next
  case NoEntry
  with assms show ?thesis
    by (auto simp: createReversePatch_def intro: createPatch_result
        split: option.splits obj.splits list.splits)
qed

lemma DimmerMap_get_keeps:
  assumes pre: "a < length (heap s)" "tryGetProxy s (Ref a) = Ref a"
    and run: "DimmerMap_get s m k = Inr (r, s')"
  shows "keeps a s s'"
proof -
  from run obtain v where "proxify s v = Inr (r, s')"
    by (auto simp: DimmerMap_get_def Let_def split: option.splits)
  with pre show ?thesis by (intro proxify_keeps)
qed

text \<open>Every operation but a direct \<^verbatim>\<open>createRecordingProxy(x)\<close> keeps the registration.\<close>

lemma state_after_keeps:
  assumes "a < length (heap s)" "tryGetProxy s (Ref a) = Ref a"
    and "\<And>x s'. r = Inr (x, s') \<Longrightarrow> keeps a s s'"
  shows "keeps a s (state_after s r)"
  using assms by (auto simp: state_after_def keeps_refl split: sum.splits)

lemma foldl_keeps:
  assumes step: "\<And>op s. op \<in> set ops \<Longrightarrow> a < length (heap s) \<Longrightarrow> tryGetProxy s (Ref a) = Ref a
                   \<Longrightarrow> keeps a s (run_op s op)"
    and pre: "a < length (heap s)" "tryGetProxy s (Ref a) = Ref a"
  shows "keeps a s (foldl run_op s ops)"
  using assms
proof (induction ops arbitrary: s)
  case Nil
  then show ?case by (simp add: keeps_refl)
next
  case (Cons op rest)
  have 1: "keeps a s (run_op s op)" using Cons.prems by simp
  have 2: "keeps a (run_op s op) (foldl run_op (run_op s op) rest)"
    using Cons.prems(1) keeps_pre[OF 1] by (intro Cons.IH) simp_all
  from 1 2 show ?case by (simp add: keeps_trans)
qed

lemma run_op_keeps:
  assumes "\<not> creates a op" "a < length (heap s)" "tryGetProxy s (Ref a) = Ref a"
  shows "keeps a s (run_op s op)"
  using assms
proof (induction op arbitrary: s)
  case (Create v)
  then have v: "v \<noteq> Ref a" by simp
  show ?case unfolding run_op.simps
    by (rule state_after_keeps[OF Create.prems(2,3)])
      (rule createRecordingProxy_keeps[OF Create.prems(2,3) v])
next
  case (Ensure v)
  show ?case unfolding run_op.simps
    by (rule state_after_keeps[OF Ensure.prems(2,3)])
      (rule ensureProxy_keeps[OF Ensure.prems(2,3)])
next
  case (Proxify v)
  show ?case unfolding run_op.simps
    by (rule state_after_keeps[OF Proxify.prems(2,3)])
      (rule proxify_keeps[OF Proxify.prems(2,3)])
next
  case (DoNotTrack v)
  show ?case unfolding run_op.simps
    by (rule state_after_keeps[OF DoNotTrack.prems(2,3)])
      (rule doNotTrack_keeps[OF DoNotTrack.prems(2,3)])
next
  case (Has m k)
  then show ?case by (simp add: keeps_refl)
next
  case (Get m k)
  show ?case unfolding run_op.simps
    by (rule state_after_keeps[OF Get.prems(2,3)])
      (rule DimmerMap_get_keeps[OF Get.prems(2,3)])
next
  case (SetKey m k v)
  show ?case unfolding run_op.simps
    by (rule state_after_keeps[OF SetKey.prems(2,3)])
      (rule keeps_same_views[OF SetKey.prems(2,3)], erule DimmerMap_set_same_views)
next
  case (Delete m k)
  show ?case unfolding run_op.simps
    by (rule state_after_keeps[OF Delete.prems(2,3)])
      (rule keeps_same_views[OF Delete.prems(2,3)], erule DimmerMap_delete_same_views)
next
  case (Clear m)
  show ?case unfolding run_op.simps
    by (rule state_after_keeps[OF Clear.prems(2,3)])
      (rule keeps_same_views[OF Clear.prems(2,3)], erule DimmerMap_clear_same_views)
next
  case (CommitDelta m)
  show ?case unfolding run_op.simps
    by (rule state_after_keeps[OF CommitDelta.prems(2,3)])
      (rule keeps_same_views[OF CommitDelta.prems(2,3)], erule DimmerMap_commitDelta_same_views)
next
  case CreateContext
  then show ?case by (auto simp: createContext_def intro!: keeps_same_views)
next
  case ClearContext
  then show ?case by (auto simp: clearContext_def intro!: keeps_same_views)
next
  case CommitPatches
  show ?case unfolding run_op.simps
    by (rule keeps_same_views[OF CommitPatches.prems(2,3)]) (rule commitPatches_same_views)
next
  case (UndoPatch p)
  show ?case
  proof (cases "undoPatch s p")
    case (Inl e)
    with UndoPatch.prems show ?thesis by (simp add: keeps_refl)
  next
    case (Inr s')
    from keeps_same_views[OF UndoPatch.prems(2,3) undoPatch_same_views[OF Inr]] Inr
    show ?thesis by simp
  qed
next
  case (CreateReversePatch p)
  show ?case unfolding run_op.simps
    by (rule state_after_keeps[OF CreateReversePatch.prems(2,3)])
      (rule keeps_same_views[OF CreateReversePatch.prems(2,3)],
        erule createReversePatch_same_views)
next
  case (CreateMapDelta t)
  show ?case unfolding run_op.simps createMapDelta_def
    by (rule keeps_same_views[OF CreateMapDelta.prems(2,3)])
      (rule createPatch_same_views, simp)
next
  case (Record body st)
  have nc: "\<forall>op\<in>set body. \<not> creates a op"
    using Record.prems(1) by (simp add: list_ex_iff)
  note pre = Record.prems(2,3)
  let ?s0 = "createContext s"
  have k0: "keeps a s ?s0"
    using pre by (auto simp: createContext_def intro!: keeps_same_views)
  have kc: "keeps a s (clearContext s)"
    using pre by (auto simp: clearContext_def intro!: keeps_same_views)
  show ?case
  proof (cases "ensureProxy ?s0 st")
    case (Inl e)
    then have "recordPatches (\<lambda>view s1. Inr (view, foldl run_op s1 body)) s st = Inl e"
      by (simp add: recordPatches_def ensureProxy_def Let_def)
    with kc show ?thesis by (simp add: state_after_def)
  next
    case (Inr ps)
    obtain p s1 where ps: "ps = (p, s1)" by (cases ps)
    from Inr ps have e: "ensureProxy ?s0 st = Inr (p, s1)" by simp
    have k1: "keeps a ?s0 s1"
      by (rule ensureProxy_keeps[OF keeps_pre[OF k0] e])
    let ?s2 = "foldl run_op s1 body"
    have k2: "keeps a s1 ?s2"
      using keeps_pre[OF k1] nc Record.IH by (intro foldl_keeps) auto
    let ?s3 = "snd (commitPatches ?s2)"
    have k3: "keeps a ?s2 ?s3"
      using keeps_pre[OF k2] by (intro keeps_same_views commitPatches_same_views)
    have k4: "keeps a ?s3 (clearContext ?s3)"
      using keeps_pre[OF k3] by (auto simp: clearContext_def intro!: keeps_same_views)
    have "recordPatches (\<lambda>view s1. Inr (view, foldl run_op s1 body)) s st
            = Inr (fst (commitPatches ?s2), clearContext ?s3)"
      using Inr ps by (simp add: recordPatches_def ensureProxy_def Let_def split_beta)
    moreover have "keeps a s (clearContext ?s3)"
      using k0 k1 k2 k3 k4 by (blast intro: keeps_trans)
    ultimately show ?thesis by (simp add: state_after_def)
  qed
qed

lemma run_ops_keeps:
  assumes "\<not> list_ex (creates a) ops" "a < length (heap s)" "tryGetProxy s (Ref a) = Ref a"
  shows "keeps a s (run_ops s ops)"
  unfolding run_ops_def using assms
  by (intro foldl_keeps run_op_keeps) (auto simp: list_ex_iff)

text \<open>
  C10, as amended. For every object \<open>x\<close> (not for every value that is not \<^verbatim>\<open>null\<close>),
  \<^verbatim>\<open>doNotTrack(x)\<close> registers \<open>x\<close> for itself and changes nothing else. Whatever calls
  follow, as long as none of them is \<^verbatim>\<open>createRecordingProxy(x)\<close> on \<open>x\<close> itself: the
  registry still maps \<open>x\<close> to itself, \<^verbatim>\<open>proxify(x)\<close> and \<^verbatim>\<open>ensureProxy(x)\<close> return \<open>x\<close> and
  leave the state as it is, and every tracking view of \<open>x\<close> there is was one before
  \<^verbatim>\<open>doNotTrack(x)\<close>: none has been created. For a value \<open>v\<close> that is not an object,
  \<^verbatim>\<open>doNotTrack(v)\<close> changes nothing when \<open>v\<close> is falsy and is a TypeError of the
  \<^verbatim>\<open>WeakMap\<close> when it is truthy; the registry never holds anything for \<open>v\<close>,
  \<^verbatim>\<open>proxify(v)\<close> returns \<open>v\<close> and \<^verbatim>\<open>ensureProxy(v)\<close> is a TypeError.
\<close>

theorem doNotTrack_object:
  assumes "a < length (heap s)" and "\<not> list_ex (creates a) ops"
  shows "doNotTrack s (Ref a) = Inr (Ref a, s\<lparr>objectToProxy := (objectToProxy s)(a \<mapsto> Ref a)\<rparr>)
         \<and> tryGetProxy (run_ops (s\<lparr>objectToProxy := (objectToProxy s)(a \<mapsto> Ref a)\<rparr>) ops) (Ref a)
             = Ref a
         \<and> proxify (run_ops (s\<lparr>objectToProxy := (objectToProxy s)(a \<mapsto> Ref a)\<rparr>) ops) (Ref a)
             = Inr (Ref a, run_ops (s\<lparr>objectToProxy := (objectToProxy s)(a \<mapsto> Ref a)\<rparr>) ops)
         \<and> ensureProxy (run_ops (s\<lparr>objectToProxy := (objectToProxy s)(a \<mapsto> Ref a)\<rparr>) ops) (Ref a)
             = Inr (Ref a, run_ops (s\<lparr>objectToProxy := (objectToProxy s)(a \<mapsto> Ref a)\<rparr>) ops)
         \<and> (\<forall>b. ORIGINAL_of (run_ops (s\<lparr>objectToProxy := (objectToProxy s)(a \<mapsto> Ref a)\<rparr>) ops)
                    (Ref b) = Ref a
                \<longrightarrow> ORIGINAL_of s (Ref b) = Ref a)
         \<and> ((\<forall>b. v \<noteq> Ref b) \<longrightarrow>
               doNotTrack s v = (if truthy v then Inl TypeError else Inr (v, s))
               \<and> tryGetProxy (run_ops s ops) v = Undefined
               \<and> proxify s v = Inr (v, s)
               \<and> ensureProxy s v = Inl TypeError)"
proof -
  let ?s1 = "s\<lparr>objectToProxy := (objectToProxy s)(a \<mapsto> Ref a)\<rparr>"
  let ?s' = "run_ops ?s1 ops"
  have d: "doNotTrack s (Ref a) = Inr (Ref a, ?s1)"
    by (simp add: doNotTrack_def wm_set_def)
  have pre: "a < length (heap ?s1)" "tryGetProxy ?s1 (Ref a) = Ref a"
    using assms(1) by (simp_all add: tryGetProxy_def wm_get_def)
  note k = run_ops_keeps[OF assms(2) pre]
  have t: "tryGetProxy ?s' (Ref a) = Ref a" using k by (simp add: keeps_def)
  have p: "proxify ?s' (Ref a) = Inr (Ref a, ?s')"
    using t by (simp add: proxify_def tryGetProxy_def Let_def)
  have e: "ensureProxy ?s' (Ref a) = Inr (Ref a, ?s')"
    using t by (simp add: ensureProxy_def Let_def)
  have o: "\<forall>b. ORIGINAL_of ?s' (Ref b) = Ref a \<longrightarrow> ORIGINAL_of s (Ref b) = Ref a"
  proof (intro allI impI)
    fix b assume "ORIGINAL_of ?s' (Ref b) = Ref a"
    with k have "ORIGINAL_of ?s1 (Ref b) = Ref a" by (simp add: keeps_def)
    moreover have "ORIGINAL_of ?s1 (Ref b) = ORIGINAL_of s (Ref b)"
      by (simp add: ORIGINAL_of_Ref)
    ultimately show "ORIGINAL_of s (Ref b) = Ref a" by simp
  qed
  have n: "(\<forall>b. v \<noteq> Ref b) \<longrightarrow>
               doNotTrack s v = (if truthy v then Inl TypeError else Inr (v, s))
               \<and> tryGetProxy (run_ops s ops) v = Undefined
               \<and> proxify s v = Inr (v, s)
               \<and> ensureProxy s v = Inl TypeError"
    by (cases v)
      (simp_all add: doNotTrack_def wm_set_def tryGetProxy_def wm_get_def proxify_def
        typeof_not_object_def ensureProxy_def createRecordingProxy_def isProxy_def
        ORIGINAL_of_def Let_def)
  from d t p e o n show ?thesis by (intro conjI)
qed

text \<open>
  The theorem at the inner map of \<open>opt_out_heap\<close>: after the calls of \<open>opt_out_ops\<close> the
  heap holds the view of the outer map and the patch of the scope, and no view of the
  inner map; without \<^verbatim>\<open>doNotTrack\<close> the same calls make one, at address 3.
\<close>

theorem doNotTrack_object_witness:
  "(1::nat) < length (heap opt_out_heap) \<and> \<not> list_ex (creates 1) opt_out_ops
   \<and> doNotTrack opt_out_heap (Ref 1) = Inr (Ref 1, opt_out_heap\<lparr>objectToProxy := [1 \<mapsto> Ref 1]\<rparr>)
   \<and> heap (run_ops (opt_out_heap\<lparr>objectToProxy := [1 \<mapsto> Ref 1]\<rparr>) opt_out_ops)
       = [MapObj [(Str ''k'', Ref 1), (Str ''j'', Ref 1)], MapObj [], DimmerMap 0 [],
          MapObj [(Str ''j'', NoEntry)]]
   \<and> tryGetProxy (run_ops (opt_out_heap\<lparr>objectToProxy := [1 \<mapsto> Ref 1]\<rparr>) opt_out_ops) (Ref 1)
       = Ref 1
   \<and> proxify (run_ops (opt_out_heap\<lparr>objectToProxy := [1 \<mapsto> Ref 1]\<rparr>) opt_out_ops) (Ref 1)
       = Inr (Ref 1, run_ops (opt_out_heap\<lparr>objectToProxy := [1 \<mapsto> Ref 1]\<rparr>) opt_out_ops)
   \<and> ensureProxy (run_ops (opt_out_heap\<lparr>objectToProxy := [1 \<mapsto> Ref 1]\<rparr>) opt_out_ops) (Ref 1)
       = Inr (Ref 1, run_ops (opt_out_heap\<lparr>objectToProxy := [1 \<mapsto> Ref 1]\<rparr>) opt_out_ops)
   \<and> heap (run_ops opt_out_heap opt_out_ops)
       = [MapObj [(Str ''k'', Ref 1), (Str ''j'', Ref 1)], MapObj [], DimmerMap 0 [],
          DimmerMap 1 [], MapObj [(Str ''j'', NoEntry)]]
   \<and> doNotTrack opt_out_heap (Str '''') = Inr (Str '''', opt_out_heap)
   \<and> doNotTrack opt_out_heap (Str ''x'') = Inl TypeError
   \<and> tryGetProxy (run_ops opt_out_heap opt_out_ops) (Str '''') = Undefined"
proof -
  have h1: "(1::nat) < length (heap opt_out_heap)"
    by (simp add: opt_out_heap_def raw_state_def)
  have h2: "\<not> list_ex (creates 1) opt_out_ops"
    by (simp add: opt_out_ops_def)
  have e: "(objectToProxy opt_out_heap)(1 \<mapsto> Ref 1) = [1 \<mapsto> Ref 1]"
    by (simp add: opt_out_heap_def raw_state_def)
  have r1: "heap (run_ops (opt_out_heap\<lparr>objectToProxy := [1 \<mapsto> Ref 1]\<rparr>) opt_out_ops)
       = [MapObj [(Str ''k'', Ref 1), (Str ''j'', Ref 1)], MapObj [], DimmerMap 0 [],
          MapObj [(Str ''j'', NoEntry)]]"
    by (simp add: run_defs opt_out_heap_def opt_out_ops_def run_ops_def state_after_def
        ensureProxy_def view_entry_def numeral_2_eq_2)
  have r2: "heap (run_ops opt_out_heap opt_out_ops)
       = [MapObj [(Str ''k'', Ref 1), (Str ''j'', Ref 1)], MapObj [], DimmerMap 0 [],
          DimmerMap 1 [], MapObj [(Str ''j'', NoEntry)]]"
    by (simp add: run_defs opt_out_heap_def opt_out_ops_def run_ops_def state_after_def
        ensureProxy_def view_entry_def numeral_2_eq_2)
  note A = doNotTrack_object[OF h1 h2, of "Str ''''", unfolded e]
  note B = doNotTrack_object[OF h1 h2, of "Str ''x''", unfolded e]
  have a1: "doNotTrack opt_out_heap (Ref 1) = Inr (Ref 1, opt_out_heap\<lparr>objectToProxy := [1 \<mapsto> Ref 1]\<rparr>)"
    by (rule A[THEN conjunct1])
  have a2: "tryGetProxy (run_ops (opt_out_heap\<lparr>objectToProxy := [1 \<mapsto> Ref 1]\<rparr>) opt_out_ops) (Ref 1)
       = Ref 1"
    by (rule A[THEN conjunct2, THEN conjunct1])
  have a3: "proxify (run_ops (opt_out_heap\<lparr>objectToProxy := [1 \<mapsto> Ref 1]\<rparr>) opt_out_ops) (Ref 1)
       = Inr (Ref 1, run_ops (opt_out_heap\<lparr>objectToProxy := [1 \<mapsto> Ref 1]\<rparr>) opt_out_ops)"
    by (rule A[THEN conjunct2, THEN conjunct2, THEN conjunct1])
  have a4: "ensureProxy (run_ops (opt_out_heap\<lparr>objectToProxy := [1 \<mapsto> Ref 1]\<rparr>) opt_out_ops) (Ref 1)
       = Inr (Ref 1, run_ops (opt_out_heap\<lparr>objectToProxy := [1 \<mapsto> Ref 1]\<rparr>) opt_out_ops)"
    by (rule A[THEN conjunct2, THEN conjunct2, THEN conjunct2, THEN conjunct1])
  have a5: "doNotTrack opt_out_heap (Str '''') = Inr (Str '''', opt_out_heap)"
    "tryGetProxy (run_ops opt_out_heap opt_out_ops) (Str '''') = Undefined"
    using A[THEN conjunct2, THEN conjunct2, THEN conjunct2, THEN conjunct2, THEN conjunct2]
    by simp_all
  have b5: "doNotTrack opt_out_heap (Str ''x'') = Inl TypeError"
    using B[THEN conjunct2, THEN conjunct2, THEN conjunct2, THEN conjunct2, THEN conjunct2]
    by simp
  from h1 h2 a1 r1 a2 a3 a4 r2 a5 b5 show ?thesis by (intro conjI)
qed

text \<open>
  The claim as stated fails in two ways. At values that are not \<^verbatim>\<open>null\<close> and not objects:
  for the number 0 the guard \<^verbatim>\<open>if (obj)\<close> skips the registration, so the registry does not
  map 0 to itself; for the number 5 the registration is a TypeError of the \<^verbatim>\<open>WeakMap\<close>.
  And at an object: \<^verbatim>\<open>createRecordingProxy(x)\<close> does not consult the registry, so called
  after \<^verbatim>\<open>doNotTrack(x)\<close> it makes a tracking view of \<open>x\<close> and registers it for \<open>x\<close>.
\<close>

theorem doNotTrack_counterexample:
  "doNotTrack (raw_state []) (Num 0) = Inr (Num 0, raw_state [])
   \<and> tryGetProxy (raw_state []) (Num 0) = Undefined
   \<and> doNotTrack (raw_state []) (Num 5) = Inl TypeError
   \<and> and_then (doNotTrack (raw_state [MapObj []]) (Ref 0))
        (\<lambda>x s. createRecordingProxy s (Ref 0))
       = Inr (Ref 1, \<lparr>heap = [MapObj [], DimmerMap 0 []],
                      objectToProxy = [0 \<mapsto> Ref 1, 1 \<mapsto> Ref 1],
                      objectToCurrentPatch = Map.empty, patchToTarget = Map.empty,
                      modified = []\<rparr>)
   \<and> ORIGINAL_of \<lparr>heap = [MapObj [], DimmerMap 0 []],
                    objectToProxy = [0 \<mapsto> Ref 1, 1 \<mapsto> Ref 1],
                    objectToCurrentPatch = Map.empty, patchToTarget = Map.empty,
                    modified = []\<rparr> (Ref 1) = Ref 0"
  by (simp add: run_defs doNotTrack_def)

end
